theory Spec2Isabelle
  imports Main "HOL-Library.Sublist"
begin

section \<open>The migration rewriter \<^verbatim>\<open>fix_user_roles.py\<close>\<close>

text \<open>
  The script reads each file of a fixed list below \<^verbatim>\<open>supabase/migrations\<close>, substitutes
  every match of one regular expression by \<^verbatim>\<open>public.is_admin()\<close>, writes the result back
  and prints the number of matches. The embedding has three layers: Python text and the
  part of the \<^verbatim>\<open>re\<close> module the script calls, the files it opens, and the script's own loop.
\<close>

subsection \<open>Python text\<close>

text \<open>
  A Python \<^verbatim>\<open>str\<close> is a sequence of Unicode code points. File contents are modelled as lists
  of code points; file names and console lines, which the script builds from ASCII literals,
  as HOL strings.
\<close>

type_synonym pychar = nat
type_synonym pystr = "pychar list"

definition str_of :: "string \<Rightarrow> pystr" where
  "str_of s = map of_char s"

text \<open>
  The class \<^verbatim>\<open>\s\<close> of a \<^verbatim>\<open>str\<close> pattern is \<^verbatim>\<open>str.isspace\<close>: tab to carriage return, the four
  separators \<^verbatim>\<open>0x1c\<close> to \<^verbatim>\<open>0x1f\<close>, the space, and the Unicode white space beyond ASCII.
\<close>

definition is_space :: "pychar \<Rightarrow> bool" where
  "is_space c \<longleftrightarrow>
     (9 \<le> c \<and> c \<le> 13) \<or> (28 \<le> c \<and> c \<le> 32) \<or> c = 133 \<or> c = 160 \<or> c = 5760 \<or>
     (8192 \<le> c \<and> c \<le> 8202) \<or> c = 8232 \<or> c = 8233 \<or> c = 8239 \<or> c = 8287 \<or> c = 12288"

subsection \<open>The regular expression\<close>

text \<open>
  The pattern of the script uses two constructs only: literal characters (some of them
  escaped: \<^verbatim>\<open>\(\<close>, \<^verbatim>\<open>\)\<close>, \<^verbatim>\<open>\.\<close>, \<^verbatim>\<open>\'\<close>) and the greedy \<^verbatim>\<open>\s*\<close>. It has no group, no dot and
  no anchor, so the flags \<^verbatim>\<open>re.MULTILINE | re.DOTALL\<close> change nothing.
\<close>

datatype atom = Lit pychar | SpaceStar

type_synonym regex = "atom list"

definition lit :: "pystr \<Rightarrow> regex" where
  "lit s = map Lit s"

definition tok_exists :: pystr where
  "tok_exists = str_of ''EXISTS (''"

definition tok_select :: pystr where
  "tok_select = str_of ''SELECT 1 FROM user_roles''"

definition tok_where :: pystr where
  "tok_where = str_of ''WHERE user_id = auth.uid() AND role = '' @ [39] @ str_of ''admin'' @ [39]"

definition tok_close :: pystr where
  "tok_close = str_of '')''"

text \<open>
  \<^verbatim>\<open>pattern = r'EXISTS \(\s*SELECT 1 FROM user_roles\s*WHERE user_id = auth\.uid\(\) AND role = \'admin\'\s*\)'\<close>
\<close>

definition pattern :: regex where
  "pattern = lit tok_exists @ [SpaceStar] @ lit tok_select @ [SpaceStar] @
             lit tok_where @ [SpaceStar] @ lit tok_close"

text \<open>\<^verbatim>\<open>replacement = 'public.is_admin()'\<close>; it holds no backslash, so \<^verbatim>\<open>re.sub\<close> inserts it as it is.\<close>

definition replacement :: pystr where
  "replacement = str_of ''public.is_admin()''"

text \<open>
  Matching at the start of the text, as the backtracking engine does it: \<^verbatim>\<open>\s*\<close> first takes
  one more white-space character and goes on, and gives it back when the rest of the
  pattern fails behind it. The result is the text left after the match.
\<close>

fun match_here :: "regex \<Rightarrow> pystr \<Rightarrow> pystr option" where
  "match_here [] s = Some s"
| "match_here (Lit c # r) [] = None"
| "match_here (Lit c # r) (x # xs) = (if x = c then match_here r xs else None)"
| "match_here (SpaceStar # r) [] = match_here r []"
| "match_here (SpaceStar # r) (x # xs) =
     (if is_space x then
        (case match_here (SpaceStar # r) xs of
           Some rest \<Rightarrow> Some rest
         | None \<Rightarrow> match_here r (x # xs))
      else match_here r (x # xs))"

text \<open>
  \<^verbatim>\<open>re.sub(pattern, repl, string)\<close>: scan from the left; replace a match and go on behind it,
  copy one character where nothing matches. An empty match is replaced too and the scan
  moves one character on (it cannot occur with the pattern of the script).
\<close>

function re_sub :: "regex \<Rightarrow> pystr \<Rightarrow> pystr \<Rightarrow> pystr" where
  "re_sub p r s =
     (case match_here p s of
        Some rest \<Rightarrow>
          if length rest < length s then r @ re_sub p r rest
          else r @ (case s of [] \<Rightarrow> [] | c # cs \<Rightarrow> c # re_sub p r cs)
      | None \<Rightarrow> (case s of [] \<Rightarrow> [] | c # cs \<Rightarrow> c # re_sub p r cs))"
  by pat_completeness auto
termination
  by (relation "measure (\<lambda>(p, r, s). length s)") auto

text \<open>\<^verbatim>\<open>re.subn\<close>: the same scan, returning the number of substitutions made as well.\<close>

function re_subn :: "regex \<Rightarrow> pystr \<Rightarrow> pystr \<Rightarrow> pystr \<times> nat" where
  "re_subn p r s =
     (case match_here p s of
        Some rest \<Rightarrow>
          if length rest < length s then
            (let (t, n) = re_subn p r rest in (r @ t, Suc n))
          else
            (case s of [] \<Rightarrow> (r, Suc 0)
             | c # cs \<Rightarrow> (let (t, n) = re_subn p r cs in (r @ c # t, Suc n)))
      | None \<Rightarrow>
          (case s of [] \<Rightarrow> ([], 0)
           | c # cs \<Rightarrow> (let (t, n) = re_subn p r cs in (c # t, n))))"
  by pat_completeness auto
termination
  by (relation "measure (\<lambda>(p, r, s). length s)") auto

text \<open>
  \<^verbatim>\<open>re.findall(pattern, string)\<close>: the same scan, collecting the matched texts (the pattern has
  no group, so each element is the whole match).
\<close>

function re_findall :: "regex \<Rightarrow> pystr \<Rightarrow> pystr list" where
  "re_findall p s =
     (case match_here p s of
        Some rest \<Rightarrow>
          if length rest < length s then
            take (length s - length rest) s # re_findall p rest
          else [] # (case s of [] \<Rightarrow> [] | c # cs \<Rightarrow> re_findall p cs)
      | None \<Rightarrow> (case s of [] \<Rightarrow> [] | c # cs \<Rightarrow> re_findall p cs))"
  by pat_completeness auto
termination
  by (relation "measure (\<lambda>(p, r). length r)") auto

declare re_sub.simps [simp del] re_subn.simps [simp del] re_findall.simps [simp del]

subsection \<open>Files\<close>

text \<open>
  What the script can observe of the file system: whether a path exists, and what opening
  it in text mode gives. A regular file holds the characters its bytes decode to in the
  platform's encoding (\<open>None\<close> when they do not decode), and may deny reading or writing.
  A denied \<^verbatim>\<open>open\<close> raises before the file is touched.
\<close>

datatype io_error = FileNotFoundError | IsADirectoryError | PermissionError | UnicodeDecodeError

datatype node = Directory | RegularFile (perm_r: bool) (perm_w: bool) (stored: "pystr option")

type_synonym filesystem = "string \<rightharpoonup> node"

text \<open>
  \<^verbatim>\<open>open(path, 'r')\<close> reads with universal newlines: \<^verbatim>\<open>\r\n\<close> and a lone \<^verbatim>\<open>\r\<close> come back as \<^verbatim>\<open>\n\<close>.
  \<^verbatim>\<open>open(path, 'w')\<close> writes every \<^verbatim>\<open>\n\<close> as \<^verbatim>\<open>os.linesep\<close>.
\<close>

fun universal_newlines :: "pystr \<Rightarrow> pystr" where
  "universal_newlines [] = []"
| "universal_newlines [c] = (if c = 13 then [10] else [c])"
| "universal_newlines (c # d # cs) =
     (if c = 13 then
        (if d = 10 then 10 # universal_newlines cs else 10 # universal_newlines (d # cs))
      else c # universal_newlines (d # cs))"

definition translate_newlines :: "pystr \<Rightarrow> pystr \<Rightarrow> pystr" where
  "translate_newlines linesep s = concat (map (\<lambda>c. if c = 10 then linesep else [c]) s)"

definition path_exists :: "filesystem \<Rightarrow> string \<Rightarrow> bool" where
  "path_exists fs p \<longleftrightarrow> fs p \<noteq> None"

definition read_text :: "filesystem \<Rightarrow> string \<Rightarrow> io_error + pystr" where
  "read_text fs p =
     (case fs p of
        None \<Rightarrow> Inl FileNotFoundError
      | Some Directory \<Rightarrow> Inl IsADirectoryError
      | Some (RegularFile r w st) \<Rightarrow>
          if \<not> r then Inl PermissionError
          else (case st of
                  None \<Rightarrow> Inl UnicodeDecodeError
                | Some t \<Rightarrow> Inr (universal_newlines t)))"

definition write_text :: "pystr \<Rightarrow> filesystem \<Rightarrow> string \<Rightarrow> pystr \<Rightarrow> io_error + filesystem" where
  "write_text linesep fs p s =
     (case fs p of
        None \<Rightarrow> Inr (fs(p \<mapsto> RegularFile True True (Some (translate_newlines linesep s))))
      | Some Directory \<Rightarrow> Inl IsADirectoryError
      | Some (RegularFile r w st) \<Rightarrow>
          if \<not> w then Inl PermissionError
          else Inr (fs(p \<mapsto> RegularFile r w (Some (translate_newlines linesep s)))))"

text \<open>\<^verbatim>\<open>os.path.join\<close> of two components, on a POSIX path.\<close>

definition path_join :: "string \<Rightarrow> string \<Rightarrow> string" where
  "path_join a b =
     (if b \<noteq> [] \<and> hd b = CHR ''/'' then b
      else if a = [] \<or> last a = CHR ''/'' then a @ b
      else a @ ''/'' @ b)"

subsection \<open>The script\<close>

record world =
  fs :: filesystem
  linesep :: pystr
  out :: "string list"

definition print :: "string \<Rightarrow> world \<Rightarrow> world" where
  "print l w = w\<lparr>out := out w @ [l]\<rparr>"

text \<open>The decimal text of a count, as the f-string formats it.\<close>

fun str_nat :: "nat \<Rightarrow> string" where
  "str_nat n =
     (if n < 10 then [''0123456789'' ! n]
      else str_nat (n div 10) @ [''0123456789'' ! (n mod 10)])"

declare str_nat.simps [simp del]

definition migrations_dir :: string where
  "migrations_dir = ''supabase/migrations''"

definition files_to_fix :: "string list" where
  "files_to_fix =
     [''20250807120000_create_performance_monitoring.sql'',
      ''20250808120000_create_batch_jobs_and_webhook_monitoring.sql'',
      ''20250808140000_create_migration_control_system.sql'',
      ''20250808150000_create_production_validation_system.sql'',
      ''20250808160000_create_global_optimization_system.sql'',
      ''20250808170000_create_security_hardening_system.sql'',
      ''20250808180000_create_connection_pooling_system.sql'',
      ''20250808190000_create_performance_optimization_system.sql'']"

text \<open>
  The body of the \<^verbatim>\<open>for\<close> loop. An exception leaves the loop with the world as it is at that
  moment: \<open>Inl (e, w)\<close>.
\<close>

definition process_file :: "string \<Rightarrow> world \<Rightarrow> io_error \<times> world + world" where
  "process_file filename w =
     (let filepath = path_join migrations_dir filename in
      if path_exists (fs w) filepath then
        (let w1 = print (''Fixing '' @ filename @ ''...'') w in
         case read_text (fs w1) filepath of
           Inl e \<Rightarrow> Inl (e, w1)
         | Inr content \<Rightarrow>
             (let new_content = re_sub pattern replacement content;
                  replacements = length (re_findall pattern content)
              in case write_text (linesep w1) (fs w1) filepath new_content of
                   Inl e \<Rightarrow> Inl (e, w1)
                 | Inr fs' \<Rightarrow>
                     Inr (print (''  Made '' @ str_nat replacements @ '' replacements'')
                            (w1\<lparr>fs := fs'\<rparr>))))
      else Inr (print (''File not found: '' @ filename) w))"

fun for_loop :: "string list \<Rightarrow> world \<Rightarrow> io_error \<times> world + world" where
  "for_loop [] w = Inr w"
| "for_loop (filename # rest) w =
     (case process_file filename w of
        Inl x \<Rightarrow> Inl x
      | Inr w' \<Rightarrow> for_loop rest w')"

definition main :: "world \<Rightarrow> io_error \<times> world + world" where
  "main w =
     (case for_loop files_to_fix w of
        Inl x \<Rightarrow> Inl x
      | Inr w' \<Rightarrow> Inr (print ''Done!'' w'))"

subsection \<open>Notions used to state the properties\<close>

text \<open>
  The texts the pattern describes: the four literal tokens with white space \<open>a\<close>, \<open>b\<close>, \<open>c\<close>
  in the three places where the pattern has \<^verbatim>\<open>\s*\<close>.
\<close>

definition occurrence :: "pystr \<Rightarrow> pystr \<Rightarrow> pystr \<Rightarrow> pystr" where
  "occurrence a b c = tok_exists @ a @ tok_select @ b @ tok_where @ c @ tok_close"

text \<open>The number of positions of a text at which a given string starts.\<close>

fun count_occurrences :: "pystr \<Rightarrow> pystr \<Rightarrow> nat" where
  "count_occurrences r [] = 0"
| "count_occurrences r (c # cs) = (if prefix r (c # cs) then 1 else 0) + count_occurrences r cs"

text \<open>
  A text cut into the pieces between its matches: \<open>weave [g0, g1, g2] [m1, m2]\<close> is
  \<open>g0 @ m1 @ g1 @ m2 @ g2\<close>.
\<close>

fun weave :: "pystr list \<Rightarrow> pystr list \<Rightarrow> pystr" where
  "weave [] ms = []"
| "weave (g # gs) [] = g"
| "weave (g # gs) (m # ms) = g @ m @ weave gs ms"

text \<open>The number a string of decimal digits stands for.\<close>

definition decimal_value :: "string \<Rightarrow> nat" where
  "decimal_value ds = foldl (\<lambda>n d. 10 * n + (of_char d - 48)) 0 ds"

text \<open>The number of positions of a text at which the pattern matches.\<close>

fun count_matches :: "pystr \<Rightarrow> nat" where
  "count_matches [] = 0"
| "count_matches (c # cs) =
     (if match_here pattern (c # cs) = None then 0 else 1) + count_matches cs"

text \<open>Lower case of the letters A to Z, to compare texts up to letter case.\<close>

definition lower :: "pychar \<Rightarrow> pychar" where
  "lower c = (if 65 \<le> c \<and> c \<le> 90 then c + 32 else c)"

text \<open>A file the script can both read and write: regular, permitted, decodable.\<close>

definition usable_file :: "filesystem \<Rightarrow> string \<Rightarrow> bool" where
  "usable_file disk p \<longleftrightarrow>
     (case disk p of Some (RegularFile r w (Some t)) \<Rightarrow> r \<and> w | _ \<Rightarrow> False)"

text \<open>What the script stores in a file that held \<open>raw\<close>.\<close>

definition rewritten :: "pystr \<Rightarrow> pystr \<Rightarrow> pystr" where
  "rewritten ls raw = translate_newlines ls (re_sub pattern replacement (universal_newlines raw))"

text \<open>
  The console format of the specification: per file, in list order, \<^verbatim>\<open>Fixing <filename>...\<close> and
  \<^verbatim>\<open>  Made <N> replacements\<close> when the file exists, \<^verbatim>\<open>File not found: <filename>\<close> when it does
  not; then one \<^verbatim>\<open>Done!\<close>. \<open>N\<close> is the number of matches in the text of the file as it is
  before the run.
\<close>

definition report_block :: "filesystem \<Rightarrow> string \<Rightarrow> string list" where
  "report_block disk filename =
     (if path_exists disk (path_join migrations_dir filename) then
        [''Fixing '' @ filename @ ''...'',
         ''  Made '' @
           str_nat (length (re_findall pattern
              (case read_text disk (path_join migrations_dir filename) of
                 Inr c \<Rightarrow> c | Inl e \<Rightarrow> []))) @
           '' replacements'']
      else [''File not found: '' @ filename])"

definition expected_output :: "filesystem \<Rightarrow> string list \<Rightarrow> string list" where
  "expected_output disk files = concat (map (report_block disk) files) @ [''Done!'']"

text \<open>
  A file on which the script has nothing left to do: its text has no match and is stored
  with the line separator the script writes.
\<close>

definition fixed_file :: "pystr \<Rightarrow> filesystem \<Rightarrow> string \<Rightarrow> bool" where
  "fixed_file ls disk p \<longleftrightarrow>
     (case disk p of
        Some (RegularFile r w (Some raw)) \<Rightarrow>
          r \<and> w \<and> translate_newlines ls (universal_newlines raw) = raw \<and>
          re_findall pattern (universal_newlines raw) = []
      | _ \<Rightarrow> False)"

text \<open>The lines of a run that finds nothing to replace.\<close>

definition second_report :: "filesystem \<Rightarrow> string \<Rightarrow> string list" where
  "second_report disk filename =
     (if path_exists disk (path_join migrations_dir filename)
      then [''Fixing '' @ filename @ ''...'', ''  Made 0 replacements'']
      else [''File not found: '' @ filename])"

subsection \<open>Sample inputs\<close>

definition first_file :: string where
  "first_file = ''20250807120000_create_performance_monitoring.sql''"

definition second_file :: string where
  "second_file = ''20250808120000_create_batch_jobs_and_webhook_monitoring.sql''"

definition first_path :: string where
  "first_path = ''supabase/migrations/20250807120000_create_performance_monitoring.sql''"

text \<open>A policy whose predicate spans four lines, and the same predicate on one line.\<close>

definition policy_sql :: pystr where
  "policy_sql = str_of ''USING ('' @ occurrence [10, 32, 32] [10, 32, 32] [10] @ str_of '');''"

definition one_line_sql :: pystr where
  "one_line_sql = occurrence [] [32] []"

text \<open>The predicate with a line break between \<^verbatim>\<open>WHERE\<close> and \<^verbatim>\<open>user_id\<close>.\<close>

definition where_alone_sql :: pystr where
  "where_alone_sql =
     tok_exists @ tok_select @ [32] @ str_of ''WHERE'' @ [10] @
     str_of ''user_id = auth.uid() AND role = '' @ [39] @ str_of ''admin'' @ [39] @ tok_close"

text \<open>A file that was fixed in part by hand: one helper call, one old predicate.\<close>

definition half_fixed_sql :: pystr where
  "half_fixed_sql = replacement @ str_of '' OR '' @ one_line_sql"

text \<open>A text with Windows line ends and no predicate.\<close>

definition crlf_sql :: pystr where
  "crlf_sql = str_of ''a'' @ [13, 10] @ str_of ''b''"

text \<open>The predicate with \<^verbatim>\<open>exists\<close> in lower case.\<close>

definition lower_exists_sql :: pystr where
  "lower_exists_sql = str_of ''exists ('' @ tok_select @ [32] @ tok_where @ tok_close"

definition world_with :: "pystr \<Rightarrow> world" where
  "world_with raw =
     \<lparr>fs = [first_path \<mapsto> RegularFile True True (Some raw)], linesep = [10], out = []\<rparr>"

text \<open>The first file in any state: a directory, not decodable, not writable.\<close>

definition world_of :: "node \<Rightarrow> world" where
  "world_of n = \<lparr>fs = [first_path \<mapsto> n], linesep = [10], out = []\<rparr>"

text \<open>The policy with \<^verbatim>\<open>exists\<close> in lower case.\<close>

definition lower_policy_sql :: pystr where
  "lower_policy_sql = str_of ''USING ('' @ lower_exists_sql @ str_of '');''"

text \<open>The first file as in \<open>world_with\<close>, the second one not readable.\<close>

definition locked_world :: world where
  "locked_world =
     \<lparr>fs = [first_path \<mapsto> RegularFile True True (Some policy_sql),
             path_join migrations_dir second_file \<mapsto> RegularFile False True (Some policy_sql)],
      linesep = [10], out = []\<rparr>"

definition empty_world :: world where
  "empty_world = \<lparr>fs = Map.empty, linesep = [10], out = []\<rparr>"

text \<open>What a run on \<open>world_with policy_sql\<close> leaves behind.\<close>

definition world_after :: world where
  "world_after =
     \<lparr>fs = [first_path \<mapsto> RegularFile True True (Some (str_of ''USING (public.is_admin());''))],
      linesep = [10],
      out = [''Fixing 20250807120000_create_performance_monitoring.sql...'',
             ''  Made 1 replacements'',
             ''File not found: 20250808120000_create_batch_jobs_and_webhook_monitoring.sql'',
             ''File not found: 20250808140000_create_migration_control_system.sql'',
             ''File not found: 20250808150000_create_production_validation_system.sql'',
             ''File not found: 20250808160000_create_global_optimization_system.sql'',
             ''File not found: 20250808170000_create_security_hardening_system.sql'',
             ''File not found: 20250808180000_create_connection_pooling_system.sql'',
             ''File not found: 20250808190000_create_performance_optimization_system.sql'',
             ''Done!'']\<rparr>"

text \<open>\<open>locked_world\<close> after the first file, and at the moment the second one fails.\<close>

definition locked_after_first :: world where
  "locked_after_first =
     \<lparr>fs = [first_path \<mapsto> RegularFile True True (Some (str_of ''USING (public.is_admin());'')),
             path_join migrations_dir second_file \<mapsto> RegularFile False True (Some policy_sql)],
      linesep = [10],
      out = [''Fixing 20250807120000_create_performance_monitoring.sql...'',
             ''  Made 1 replacements'']\<rparr>"

definition locked_at_error :: world where
  "locked_at_error =
     \<lparr>fs = [first_path \<mapsto> RegularFile True True (Some (str_of ''USING (public.is_admin());'')),
             path_join migrations_dir second_file \<mapsto> RegularFile False True (Some policy_sql)],
      linesep = [10],
      out = [''Fixing 20250807120000_create_performance_monitoring.sql...'',
             ''  Made 1 replacements'',
             ''Fixing 20250808120000_create_batch_jobs_and_webhook_monitoring.sql...'']\<rparr>"

section \<open>Auxiliary facts\<close>

subsection \<open>The matcher on the pattern of the script\<close>

lemma match_lit:
  "match_here (lit l @ r) s = (if prefix l s then match_here r (drop (length l) s) else None)"
proof (induction l arbitrary: s)
  case Nil
  then show ?case by (simp add: lit_def)
next
  case (Cons c l)
  then show ?case by (cases s) (auto simp: lit_def)
qed

lemma match_star_Some:
  "match_here (SpaceStar # r) s = Some t \<Longrightarrow>
   \<exists>a s'. list_all is_space a \<and> s = a @ s' \<and> match_here r s' = Some t"
proof (induction s)
  case Nil
  then show ?case by auto
next
  case (Cons x xs)
  show ?case
  proof (cases "is_space x \<and> match_here (SpaceStar # r) xs \<noteq> None")
    case True
    with Cons.prems have "match_here (SpaceStar # r) xs = Some t" by auto
    from Cons.IH [OF this] obtain a s' where
      "list_all is_space a" "xs = a @ s'" "match_here r s' = Some t" by blast
    with True have "list_all is_space (x # a) \<and> x # xs = (x # a) @ s' \<and> match_here r s' = Some t"
      by simp
    then show ?thesis by blast
  next
    case False
    with Cons.prems have "match_here r (x # xs) = Some t" by (auto split: if_splits option.splits)
    then have "list_all is_space [] \<and> x # xs = [] @ (x # xs) \<and> match_here r (x # xs) = Some t"
      by simp
    then show ?thesis by blast
  qed
qed

lemma match_star_skip:
  "list_all is_space a \<Longrightarrow> \<not> is_space c \<Longrightarrow>
   match_here (SpaceStar # Lit c # r) (a @ c # s) = match_here r s"
proof (induction a)
  case Nil
  then show ?case by simp
next
  case (Cons x a)
  then have "x \<noteq> c" by auto
  with Cons show ?case by (simp split: option.splits)
qed

lemma not_space_toks: "\<not> is_space 83" "\<not> is_space 87" "\<not> is_space 41"
  by (simp_all add: is_space_def)

lemma tok_heads:
  "tok_select = 83 # tl tok_select" "tok_where = 87 # tl tok_where" "tok_close = [41]"
  by (simp_all add: tok_select_def tok_where_def tok_close_def str_of_def)

lemma pattern_unfold:
  "pattern = lit tok_exists @ SpaceStar # Lit 83 # lit (tl tok_select) @ SpaceStar # Lit 87 # lit (tl tok_where) @ SpaceStar # Lit 41 # []"
  by (simp add: pattern_def lit_def tok_select_def tok_where_def tok_close_def str_of_def)

lemma match_occurrence:
  assumes "list_all is_space a" "list_all is_space b" "list_all is_space c"
  shows "match_here pattern (occurrence a b c @ rest) = Some rest"
proof -
  have 1: "match_here [SpaceStar, Lit 41] (c @ 41 # rest) = Some rest"
    using match_star_skip [OF assms(3) not_space_toks(3), of "[]" rest] by simp
  have 2: "match_here (SpaceStar # Lit 87 # lit (tl tok_where) @ [SpaceStar, Lit 41])
             (b @ 87 # tl tok_where @ c @ 41 # rest) = Some rest"
    using match_star_skip [OF assms(2) not_space_toks(2)] 1 by (simp add: match_lit)
  have 3: "match_here (SpaceStar # Lit 83 # lit (tl tok_select) @ SpaceStar # Lit 87 # lit (tl tok_where) @ [SpaceStar, Lit 41])
             (a @ 83 # tl tok_select @ b @ 87 # tl tok_where @ c @ 41 # rest) = Some rest"
    using match_star_skip [OF assms(1) not_space_toks(1)] 2 by (simp add: match_lit)
  have "occurrence a b c @ rest = tok_exists @ a @ 83 # tl tok_select @ b @ 87 # tl tok_where @ c @ 41 # rest"
    unfolding occurrence_def using tok_heads by (metis append_Cons append_Nil append_assoc)
  then show ?thesis using 3 by (simp add: pattern_unfold match_lit)
qed

lemma match_pattern_Some:
  assumes "match_here pattern s = Some rest"
  shows "\<exists>a b c. list_all is_space a \<and> list_all is_space b \<and> list_all is_space c \<and>
           s = occurrence a b c @ rest"
proof -
  from assms have p1: "prefix tok_exists s"
    and m1: "match_here ([SpaceStar] @ lit tok_select @ [SpaceStar] @ lit tok_where @ [SpaceStar] @ lit tok_close)
               (drop (length tok_exists) s) = Some rest"
    by (auto simp: pattern_def match_lit split: if_splits)
  from m1 obtain a s1 where a: "list_all is_space a" "drop (length tok_exists) s = a @ s1"
    and m2: "match_here (lit tok_select @ [SpaceStar] @ lit tok_where @ [SpaceStar] @ lit tok_close) s1 = Some rest"
    using match_star_Some by fastforce
  from m2 have p2: "prefix tok_select s1"
    and m3: "match_here ([SpaceStar] @ lit tok_where @ [SpaceStar] @ lit tok_close)
               (drop (length tok_select) s1) = Some rest"
    by (auto simp: match_lit split: if_splits)
  from m3 obtain b s2 where b: "list_all is_space b" "drop (length tok_select) s1 = b @ s2"
    and m4: "match_here (lit tok_where @ [SpaceStar] @ lit tok_close) s2 = Some rest"
    using match_star_Some by fastforce
  from m4 have p3: "prefix tok_where s2"
    and m5: "match_here ([SpaceStar] @ lit tok_close) (drop (length tok_where) s2) = Some rest"
    by (auto simp: match_lit split: if_splits)
  from m5 obtain c s3 where c: "list_all is_space c" "drop (length tok_where) s2 = c @ s3"
    and m6: "match_here (lit tok_close) s3 = Some rest"
    using match_star_Some by fastforce
  from m6 have p4: "prefix tok_close s3" and m7: "drop (length tok_close) s3 = rest"
    using match_lit [of tok_close "[]" s3] by (auto split: if_splits)
  have e: "\<And>l t. prefix l t \<Longrightarrow> t = l @ drop (length l) t"
    by (auto simp: prefix_def)
  have "s = tok_exists @ a @ s1" using e [OF p1] a(2) by simp
  also have "s1 = tok_select @ b @ s2" using e [OF p2] b(2) by simp
  also have "s2 = tok_where @ c @ s3" using e [OF p3] c(2) by simp
  also have "s3 = tok_close @ rest" using e [OF p4] m7 by simp
  finally have "s = occurrence a b c @ rest" by (simp add: occurrence_def)
  with a(1) b(1) c(1) show ?thesis by blast
qed

subsection \<open>The scan\<close>

lemma occurrence_not_Nil: "occurrence a b c \<noteq> []"
  by (simp add: occurrence_def tok_exists_def str_of_def)

lemma match_pattern_shorter:
  "match_here pattern s = Some rest \<Longrightarrow> length rest < length s"
  using match_pattern_Some [of s rest] occurrence_not_Nil by fastforce

lemma re_sub_match:
  "match_here pattern s = Some rest \<Longrightarrow> re_sub pattern r s = r @ re_sub pattern r rest"
  using match_pattern_shorter [of s rest] by (subst re_sub.simps) simp

lemma re_sub_skip:
  "match_here pattern (c # cs) = None \<Longrightarrow> re_sub pattern r (c # cs) = c # re_sub pattern r cs"
  by (subst re_sub.simps) simp

lemma match_pattern_Nil: "match_here pattern [] = None"
  by (simp add: pattern_def lit_def tok_exists_def str_of_def)

lemma re_sub_Nil: "re_sub pattern r [] = []"
  by (subst re_sub.simps) (simp add: match_pattern_Nil)

lemma re_findall_match:
  "match_here pattern s = Some rest \<Longrightarrow>
   re_findall pattern s = take (length s - length rest) s # re_findall pattern rest"
  using match_pattern_shorter [of s rest] by (subst re_findall.simps) simp

lemma re_findall_skip:
  "match_here pattern (c # cs) = None \<Longrightarrow> re_findall pattern (c # cs) = re_findall pattern cs"
  by (subst re_findall.simps) simp

lemma re_findall_Nil: "re_findall pattern [] = []"
  by (subst re_findall.simps) (simp add: match_pattern_Nil)

lemma scan_induct [case_names Nil Match Skip]:
  assumes "P []"
    and "\<And>s rest. match_here pattern s = Some rest \<Longrightarrow> P rest \<Longrightarrow> P s"
    and "\<And>c cs. match_here pattern (c # cs) = None \<Longrightarrow> P cs \<Longrightarrow> P (c # cs)"
  shows "P s"
proof (induction s rule: length_induct)
  case (1 s)
  show ?case
  proof (cases "match_here pattern s")
    case None
    show ?thesis
    proof (cases s)
      case Nil
      with assms(1) show ?thesis by simp
    next
      case (Cons c cs)
      with None 1 assms(3) show ?thesis by simp
    qed
  next
    case (Some rest)
    with 1 match_pattern_shorter assms(2) show ?thesis by blast
  qed
qed

lemma re_subn_sub: "re_subn p r s = (re_sub p r s, length (re_findall p s))"
proof (induction p r s rule: re_subn.induct)
  case (1 p r s)
  show ?case
  proof (cases "match_here p s")
    case None
    show ?thesis
    proof (cases s)
      case Nil
      with None show ?thesis
        by (simp add: re_subn.simps [of p r "[]"] re_sub.simps [of p r "[]"] re_findall.simps [of p "[]"])
    next
      case (Cons c cs)
      with None 1(1) [OF None Cons] show ?thesis
        by (simp add: re_subn.simps [of p r "c # cs"] re_sub.simps [of p r "c # cs"]
              re_findall.simps [of p "c # cs"])
    qed
  next
    case (Some rest)
    show ?thesis
    proof (cases "length rest < length s")
      case True
      with Some 1(2) [OF Some True] show ?thesis
        by (simp add: re_subn.simps [of p r s] re_sub.simps [of p r s] re_findall.simps [of p s])
    next
      case False
      show ?thesis
      proof (cases s)
        case Nil
        with Some False show ?thesis
          by (simp add: re_subn.simps [of p r "[]"] re_sub.simps [of p r "[]"] re_findall.simps [of p "[]"])
      next
        case (Cons c cs)
        with Some False 1(3) [OF Some False Cons] show ?thesis
          by (simp add: re_subn.simps [of p r "c # cs"] re_sub.simps [of p r "c # cs"]
                re_findall.simps [of p "c # cs"])
      qed
    qed
  qed
qed

lemma findall_Nil_sub_id:
  "re_findall pattern s = [] \<Longrightarrow> re_sub pattern r s = s"
proof (induction s rule: scan_induct)
  case Nil
  then show ?case by (simp add: re_sub_Nil)
next
  case (Match s rest)
  then show ?case by (simp add: re_findall_match)
next
  case (Skip c cs)
  then show ?case by (simp add: re_findall_skip re_sub_skip)
qed

lemma match_needs_E: "c \<noteq> 69 \<Longrightarrow> match_here pattern (c # s) = None"
  by (simp add: pattern_def lit_def tok_exists_def str_of_def)

lemma re_findall_replacement: "re_findall pattern (replacement @ z) = re_findall pattern z"
  by (simp add: replacement_def str_of_def re_findall_skip match_needs_E)

lemma re_sub_replacement: "re_sub pattern r (replacement @ z) = replacement @ re_sub pattern r z"
  by (simp add: replacement_def str_of_def re_sub_skip match_needs_E)

lemma prefix_re_sub:
  "112 \<notin> set w \<Longrightarrow> prefix w (re_sub pattern replacement s) \<Longrightarrow> prefix w s"
proof (induction w arbitrary: s)
  case Nil
  then show ?case by simp
next
  case (Cons x w)
  show ?case
  proof (cases "match_here pattern s")
    case (Some rest)
    then have "re_sub pattern replacement s = 112 # tl replacement @ re_sub pattern replacement rest"
      by (simp add: re_sub_match replacement_def str_of_def)
    with Cons.prems show ?thesis by simp
  next
    case None
    show ?thesis
    proof (cases s)
      case Nil
      with Cons.prems show ?thesis by (simp add: re_sub_Nil)
    next
      case (Cons c cs)
      with None Cons.prems Cons.IH [of cs] show ?thesis by (simp add: re_sub_skip)
    qed
  qed
qed

lemma tok_no_p:
  "112 \<notin> set tok_exists" "112 \<notin> set tok_select" "112 \<notin> set tok_where" "112 \<notin> set tok_close"
  by (simp_all add: tok_exists_def tok_select_def tok_where_def tok_close_def str_of_def)

lemma space_no_p: "list_all is_space a \<Longrightarrow> 112 \<notin> set a"
  by (auto simp: list_all_iff is_space_def)

lemma occurrence_no_p:
  "list_all is_space a \<Longrightarrow> list_all is_space b \<Longrightarrow> list_all is_space c \<Longrightarrow>
   112 \<notin> set (occurrence a b c)"
  by (simp add: occurrence_def tok_no_p space_no_p)

lemma match_sub_back:
  assumes "match_here pattern (c # re_sub pattern replacement cs) = Some rest"
  shows "match_here pattern (c # cs) \<noteq> None"
proof -
  from match_pattern_Some [OF assms] obtain a b d where
    sp: "list_all is_space a" "list_all is_space b" "list_all is_space d"
    and eq: "c # re_sub pattern replacement cs = occurrence a b d @ rest" by blast
  from occurrence_not_Nil [of a b d] obtain m where m: "occurrence a b d = c # m"
    using eq by (cases "occurrence a b d") auto
  with eq have "prefix m (re_sub pattern replacement cs)" by simp
  moreover from occurrence_no_p [OF sp] m have "112 \<notin> set m" by simp
  ultimately have "prefix m cs" by (rule prefix_re_sub [rotated])
  then obtain t where "c # cs = occurrence a b d @ t" using m by (auto simp: prefix_def)
  with match_occurrence [OF sp, of t] show ?thesis by simp
qed

lemma findall_sub_Nil: "re_findall pattern (re_sub pattern replacement s) = []"
proof (induction s rule: scan_induct)
  case Nil
  then show ?case by (simp add: re_sub_Nil re_findall_Nil)
next
  case (Match s rest)
  then show ?case by (simp add: re_sub_match re_findall_replacement)
next
  case (Skip c cs)
  have "match_here pattern (c # re_sub pattern replacement cs) = None"
    using match_sub_back [of c cs] Skip(1) by (cases "match_here pattern (c # re_sub pattern replacement cs)") auto
  with Skip show ?case by (simp add: re_sub_skip re_findall_skip)
qed

lemma weave_Cons: "weave ((c # g) # gs) ms = c # weave (g # gs) ms"
  by (cases ms) simp_all

lemma weave_scan:
  "\<exists>gaps. length gaps = Suc (length (re_findall pattern s)) \<and>
      s = weave gaps (re_findall pattern s) \<and>
      re_sub pattern r s = weave gaps (replicate (length (re_findall pattern s)) r)"
proof (induction s rule: scan_induct)
  case Nil
  have "length [[]::pystr] = Suc (length (re_findall pattern [])) \<and>
        [] = weave [[]] (re_findall pattern []) \<and>
        re_sub pattern r [] = weave [[]] (replicate (length (re_findall pattern [])) r)"
    by (simp add: re_findall_Nil re_sub_Nil)
  then show ?case by blast
next
  case (Match s rest)
  from Match(2) obtain gaps where
    g: "length gaps = Suc (length (re_findall pattern rest))"
       "rest = weave gaps (re_findall pattern rest)"
       "re_sub pattern r rest = weave gaps (replicate (length (re_findall pattern rest)) r)"
    by blast
  from match_pattern_Some [OF Match(1)] obtain m where m: "s = m @ rest" by blast
  then have t: "take (length s - length rest) s = m" by simp
  have fa: "re_findall pattern s = m # re_findall pattern rest"
    using re_findall_match [OF Match(1)] t by simp
  have su: "re_sub pattern r s = r @ re_sub pattern r rest"
    by (rule re_sub_match [OF Match(1)])
  have 1: "length ([] # gaps) = Suc (length (re_findall pattern s))"
    by (simp add: fa g(1))
  have "weave ([] # gaps) (m # re_findall pattern rest) = m @ weave gaps (re_findall pattern rest)"
    by simp
  with g(2) m fa have 2: "s = weave ([] # gaps) (re_findall pattern s)" by metis
  have "weave ([] # gaps) (r # replicate (length (re_findall pattern rest)) r) =
        r @ weave gaps (replicate (length (re_findall pattern rest)) r)" by simp
  with g(3) su fa
  have 3: "re_sub pattern r s = weave ([] # gaps) (replicate (length (re_findall pattern s)) r)"
    by simp
  from 1 2 3 show ?case by blast
next
  case (Skip c cs)
  from Skip(2) obtain gaps where
    g: "length gaps = Suc (length (re_findall pattern cs))"
       "cs = weave gaps (re_findall pattern cs)"
       "re_sub pattern r cs = weave gaps (replicate (length (re_findall pattern cs)) r)"
    by blast
  from g(1) obtain g0 gs where gaps: "gaps = g0 # gs" by (cases gaps) auto
  note fa = re_findall_skip [OF Skip(1)]
  note su = re_sub_skip [OF Skip(1), of r]
  have 1: "length ((c # g0) # gs) = Suc (length (re_findall pattern (c # cs)))"
    using g(1) gaps by (simp add: fa)
  have e2: "cs = weave (g0 # gs) (re_findall pattern cs)"
    using g(2) gaps by simp
  have 2: "c # cs = weave ((c # g0) # gs) (re_findall pattern (c # cs))"
    using e2 by (metis fa weave_Cons)
  have e3: "re_sub pattern r cs = weave (g0 # gs) (replicate (length (re_findall pattern cs)) r)"
    using g(3) gaps by simp
  have 3: "re_sub pattern r (c # cs) =
          weave ((c # g0) # gs) (replicate (length (re_findall pattern (c # cs))) r)"
    using e3 by (metis fa su weave_Cons)
  from 1 2 3 show ?case by blast
qed

lemma digit_code: "d < 10 \<Longrightarrow> (of_char (''0123456789'' ! d) :: nat) = 48 + d"
proof -
  assume "d < 10"
  then have "d = 0 \<or> d = 1 \<or> d = 2 \<or> d = 3 \<or> d = 4 \<or> d = 5 \<or> d = 6 \<or> d = 7 \<or> d = 8 \<or> d = 9"
    by arith
  then show ?thesis by (elim disjE) simp_all
qed

lemma decimal_str_nat: "decimal_value (str_nat n) = n"
proof (induction n rule: str_nat.induct)
  case (1 n)
  show ?case
  proof (cases "n < 10")
    case True
    then show ?thesis by (simp add: str_nat.simps [of n] decimal_value_def digit_code)
  next
    case False
    with 1 have "decimal_value (str_nat (n div 10)) = n div 10" by simp
    moreover have "n mod 10 < 10" by simp
    ultimately show ?thesis using False
      by (simp add: str_nat.simps [of n] decimal_value_def digit_code)
  qed
qed

subsection \<open>Counting the replacement string\<close>

lemma count_skip:
  "r \<noteq> [] \<Longrightarrow> hd r \<notin> set w \<Longrightarrow> count_occurrences r (w @ z) = count_occurrences r z"
  by (induction w) (auto simp: prefix_def neq_Nil_conv)

lemma count_replacement:
  "count_occurrences replacement (replacement @ z) = Suc (count_occurrences replacement z)"
proof -
  have r: "replacement = 112 # tl replacement" "112 \<notin> set (tl replacement)"
    "hd replacement = 112" "replacement \<noteq> []"
    by (simp_all add: replacement_def str_of_def)
  have e: "replacement @ z = 112 # (tl replacement @ z)"
    using r(1) by (metis append_Cons)
  have p: "prefix replacement (112 # (tl replacement @ z))"
    using r(1) by (metis append_Cons prefixI)
  have "count_occurrences replacement (tl replacement @ z) = count_occurrences replacement z"
    using count_skip [of replacement "tl replacement" z] r by simp
  with p show ?thesis by (simp add: e)
qed

lemma prefix_into_re_sub:
  "69 \<notin> set w \<Longrightarrow> prefix w s \<Longrightarrow> prefix w (re_sub pattern r s)"
proof (induction w arbitrary: s)
  case Nil
  then show ?case by simp
next
  case (Cons x w)
  then obtain s' where s: "s = x # s'" "prefix w s'" by (auto simp: prefix_def)
  from Cons.prems have "x \<noteq> 69" by auto
  then have "re_sub pattern r (x # s') = x # re_sub pattern r s'"
    by (simp add: re_sub_skip match_needs_E)
  with s Cons.IH [of s'] Cons.prems show ?case by simp
qed

lemma prefix_replacement_sub:
  "prefix replacement (c # re_sub pattern replacement cs) \<longleftrightarrow> prefix replacement (c # cs)"
proof -
  have r: "replacement = 112 # tl replacement" "112 \<notin> set (tl replacement)"
    "69 \<notin> set (tl replacement)"
    by (simp_all add: replacement_def str_of_def)
  have "prefix (112 # tl replacement) (c # re_sub pattern replacement cs)
        \<longleftrightarrow> prefix (112 # tl replacement) (c # cs)"
    using prefix_re_sub [OF r(2), of cs] prefix_into_re_sub [OF r(3), of cs replacement]
    by auto
  with r(1) show ?thesis by simp
qed

lemma count_replacement_sub:
  "count_occurrences replacement (re_sub pattern replacement s) =
   length (re_findall pattern s) + count_occurrences replacement s"
proof (induction s rule: scan_induct)
  case Nil
  then show ?case by (simp add: re_sub_Nil re_findall_Nil)
next
  case (Match s rest)
  from match_pattern_Some [OF Match(1)] obtain a b c where
    sp: "list_all is_space a" "list_all is_space b" "list_all is_space c"
    and s: "s = occurrence a b c @ rest" by blast
  have "hd replacement = 112" "replacement \<noteq> []" by (simp_all add: replacement_def str_of_def)
  with count_skip [of replacement "occurrence a b c" rest] occurrence_no_p [OF sp] s
  have "count_occurrences replacement s = count_occurrences replacement rest" by simp
  with Match show ?case by (simp add: re_sub_match re_findall_match count_replacement)
next
  case (Skip c cs)
  then show ?case
    using prefix_replacement_sub [of c cs] by (simp add: re_sub_skip re_findall_skip)
qed

subsection \<open>Matches do not overlap\<close>

lemma lower_space: "is_space x \<Longrightarrow> lower x = x"
  by (auto simp: is_space_def lower_def)

lemma space_not_x: "is_space x \<Longrightarrow> lower x \<noteq> 120"
  by (auto simp: is_space_def lower_def)

lemma spaces_not_x: "list_all is_space a \<Longrightarrow> \<forall>z\<in>set a. lower z \<noteq> 120"
  by (simp add: list_all_iff space_not_x)

lemma map_lower_spaces: "list_all is_space a \<Longrightarrow> map lower a = a"
  by (induction a) (simp_all add: lower_space)

lemma occurrence_shape:
  assumes "list_all is_space a" "list_all is_space b" "list_all is_space c"
  shows "\<exists>m. occurrence a b c = 69 # 88 # m \<and> (\<forall>z\<in>set m. lower z \<noteq> 120) \<and>
             last (occurrence a b c) = 41"
proof -
  let ?m = "drop 2 tok_exists @ a @ tok_select @ b @ tok_where @ c @ tok_close"
  have 1: "occurrence a b c = 69 # 88 # ?m"
    by (simp add: occurrence_def tok_exists_def str_of_def)
  have 2: "\<forall>z\<in>set (drop 2 tok_exists). lower z \<noteq> 120" "\<forall>z\<in>set tok_select. lower z \<noteq> 120"
    "\<forall>z\<in>set tok_where. lower z \<noteq> 120" "\<forall>z\<in>set tok_close. lower z \<noteq> 120"
    by (simp_all add: tok_exists_def tok_select_def tok_where_def tok_close_def str_of_def lower_def)
  have 3: "\<forall>z\<in>set ?m. lower z \<noteq> 120"
    using 2 spaces_not_x [OF assms(1)] spaces_not_x [OF assms(2)] spaces_not_x [OF assms(3)]
    by auto
  have 4: "last (occurrence a b c) = 41"
    by (simp add: occurrence_def tok_close_def str_of_def)
  from 1 3 4 show ?thesis by blast
qed

lemma straddle:
  assumes none: "match_here pattern (c # cs) = None" and x: "lower x = 120" and e: "e \<noteq> 41"
  shows "match_here pattern (c # cs @ e # x # y) = None"
proof (rule ccontr)
  assume "match_here pattern (c # cs @ e # x # y) \<noteq> None"
  then obtain rest where "match_here pattern (c # cs @ e # x # y) = Some rest" by auto
  from match_pattern_Some [OF this] obtain a b d where
    sp: "list_all is_space a" "list_all is_space b" "list_all is_space d"
    and eq: "(c # cs) @ (e # x # y) = occurrence a b d @ rest" by auto
  from occurrence_shape [OF sp] obtain m where
    m: "occurrence a b d = 69 # 88 # m" "\<forall>z\<in>set m. lower z \<noteq> 120" "last (occurrence a b d) = 41"
    by blast
  from eq obtain u where
    u: "(c # cs = occurrence a b d @ u \<and> u @ (e # x # y) = rest) \<or>
        ((c # cs) @ u = occurrence a b d \<and> e # x # y = u @ rest)"
    unfolding append_eq_append_conv2 by blast
  show False
  proof (cases "c # cs = occurrence a b d @ u")
    case True
    with match_occurrence [OF sp, of u] none show False by simp
  next
    case False
    with u have o: "(c # cs) @ u = occurrence a b d" and ey: "e # x # y = u @ rest" by auto
    from False o have "u \<noteq> []" by auto
    show False
    proof (cases "tl u")
      case Nil
      with \<open>u \<noteq> []\<close> ey have "u = [e]" by (cases u) auto
      with o m(3) e show False by (metis last_snoc append_assoc last_appendR list.distinct(1))
    next
      case (Cons x' u')
      with \<open>u \<noteq> []\<close> ey have "u = e # x # u'" by (cases u) auto
      with o m(1) have "cs @ e # x # u' = 88 # m" by simp
      then have "x \<in> set m" by (cases cs) auto
      with m(2) x show False by blast
    qed
  qed
qed

lemma pass_through:
  "(\<forall>i<length u. match_here pattern (drop i u @ z) = None) \<Longrightarrow>
   re_findall pattern (u @ z) = re_findall pattern z \<and>
   re_sub pattern r (u @ z) = u @ re_sub pattern r z"
proof (induction u)
  case Nil
  then show ?case by simp
next
  case (Cons c u)
  from Cons.prems have 0: "match_here pattern (c # u @ z) = None" by fastforce
  from Cons.prems have "\<forall>i<length u. match_here pattern (drop i u @ z) = None" by fastforce
  with Cons.IH 0 show ?case by (simp add: re_findall_skip re_sub_skip)
qed

lemma findall_Nil_no_match:
  "re_findall pattern s = [] \<Longrightarrow> i < length s \<Longrightarrow> match_here pattern (drop i s) = None"
proof (induction s arbitrary: i)
  case Nil
  then show ?case by simp
next
  case (Cons c s)
  have n: "match_here pattern (c # s) = None"
  proof (cases "match_here pattern (c # s)")
    case (Some rest)
    with Cons.prems(1) show ?thesis by (simp add: re_findall_match)
  qed simp
  with Cons.prems(1) have "re_findall pattern s = []" by (simp add: re_findall_skip)
  with Cons.IH Cons.prems(2) n show ?case by (cases i) auto
qed

lemma sub_context:
  assumes sp: "list_all is_space a" "list_all is_space b" "list_all is_space c"
  shows "re_sub pattern r (pre @ occurrence a b c @ post) =
           re_sub pattern r pre @ r @ re_sub pattern r post \<and>
         re_findall pattern (pre @ occurrence a b c @ post) =
           re_findall pattern pre @ occurrence a b c # re_findall pattern post"
proof (induction pre rule: scan_induct)
  case Nil
  from match_occurrence [OF sp, of post] show ?case
    by (simp add: re_sub_match re_findall_match re_sub_Nil re_findall_Nil)
next
  case (Match s rest)
  from match_pattern_Some [OF Match(1)] obtain a' b' c' where
    sp': "list_all is_space a'" "list_all is_space b'" "list_all is_space c'"
    and s: "s = occurrence a' b' c' @ rest" by blast
  have "match_here pattern (s @ occurrence a b c @ post) = Some (rest @ occurrence a b c @ post)"
    using match_occurrence [OF sp', of "rest @ occurrence a b c @ post"] s by simp
  with Match show ?case by (simp add: re_sub_match re_findall_match)
next
  case (Skip d ds)
  from occurrence_shape [OF sp] obtain m where m: "occurrence a b c = 69 # 88 # m" by blast
  have "lower 88 = 120" "(69::nat) \<noteq> 41" by (simp_all add: lower_def)
  from straddle [OF Skip(1) this, of "m @ post"] m
  have "match_here pattern (d # ds @ occurrence a b c @ post) = None" by simp
  with Skip show ?case by (simp add: re_sub_skip re_findall_skip)
qed

lemma spaces_unique:
  assumes "list_all is_space a" "list_all is_space a'" "\<not> is_space h"
    and "a @ h # X = a' @ h # X'"
  shows "a = a' \<and> X = X'"
proof -
  have "takeWhile is_space (a @ h # X) = a" "takeWhile is_space (a' @ h # X') = a'"
    using assms(1-3) by (simp_all add: takeWhile_append2 list_all_iff)
  with assms(4) have "a = a'" by simp
  with assms(4) show ?thesis by simp
qed

lemma variant_head:
  assumes sp: "list_all is_space a" "list_all is_space b" "list_all is_space c"
    and lo: "map lower t = map lower (occurrence a b c)"
    and ne: "t \<noteq> occurrence a b c"
  shows "match_here pattern (t @ post) = None"
proof (rule ccontr)
  assume "match_here pattern (t @ post) \<noteq> None"
  then obtain rest where "match_here pattern (t @ post) = Some rest" by auto
  from match_pattern_Some [OF this] obtain a' b' c' where
    sp': "list_all is_space a'" "list_all is_space b'" "list_all is_space c'"
    and eq: "t @ post = occurrence a' b' c' @ rest" by auto
  let ?L = "map lower"
  have "?L t @ ?L post = ?L (occurrence a' b' c') @ ?L rest"
    using eq by (metis map_append)
  then have "?L (occurrence a b c) @ ?L post = ?L (occurrence a' b' c') @ ?L rest"
    using lo by simp
  then have 1: "a @ ?L tok_select @ b @ ?L tok_where @ c @ ?L tok_close @ ?L post =
             a' @ ?L tok_select @ b' @ ?L tok_where @ c' @ ?L tok_close @ ?L rest"
    using sp sp' by (simp add: occurrence_def map_lower_spaces)
  have h: "?L tok_select = 115 # tl (?L tok_select)" "?L tok_where = 119 # tl (?L tok_where)"
    "?L tok_close = [41]" "\<not> is_space 115" "\<not> is_space 119" "\<not> is_space 41"
    by (simp_all add: tok_select_def tok_where_def tok_close_def str_of_def lower_def is_space_def)
  from 1 h(1) have "a @ 115 # (tl (?L tok_select) @ b @ ?L tok_where @ c @ ?L tok_close @ ?L post) =
             a' @ 115 # (tl (?L tok_select) @ b' @ ?L tok_where @ c' @ ?L tok_close @ ?L rest)"
    by (metis append_Cons)
  from spaces_unique [OF sp(1) sp'(1) h(4) this]
  have a: "a = a'" and 2: "b @ ?L tok_where @ c @ ?L tok_close @ ?L post =
             b' @ ?L tok_where @ c' @ ?L tok_close @ ?L rest" by simp_all
  from 2 h(2) have "b @ 119 # (tl (?L tok_where) @ c @ ?L tok_close @ ?L post) =
             b' @ 119 # (tl (?L tok_where) @ c' @ ?L tok_close @ ?L rest)"
    by (metis append_Cons)
  from spaces_unique [OF sp(2) sp'(2) h(5) this]
  have b: "b = b'" and 3: "c @ ?L tok_close @ ?L post = c' @ ?L tok_close @ ?L rest" by simp_all
  from 3 h(3) have "c @ 41 # ?L post = c' @ 41 # ?L rest" by simp
  from spaces_unique [OF sp(3) sp'(3) h(6) this] have c: "c = c'" by simp
  from lo have "length t = length (occurrence a b c)" by (metis length_map)
  with eq a b c have "t = occurrence a b c" by (metis append_eq_append_conv)
  with ne show False by simp
qed

lemma variant_inside:
  assumes sp: "list_all is_space a" "list_all is_space b" "list_all is_space c"
    and lo: "map lower t = map lower (occurrence a b c)"
    and i: "0 < i" "i < length t"
  shows "match_here pattern (drop i t @ post) = None"
proof (rule ccontr)
  assume "match_here pattern (drop i t @ post) \<noteq> None"
  then obtain rest where "match_here pattern (drop i t @ post) = Some rest" by auto
  from match_pattern_Some [OF this] obtain a' b' c' where
    sp': "list_all is_space a'" "list_all is_space b'" "list_all is_space c'"
    and eq: "drop i t @ post = occurrence a' b' c' @ rest" by auto
  from occurrence_shape [OF sp'] obtain m' where m': "occurrence a' b' c' = 69 # 88 # m'" by blast
  from occurrence_shape [OF sp] obtain m where
    m: "occurrence a b c = 69 # 88 # m" "\<forall>z\<in>set m. lower z \<noteq> 120" "last (occurrence a b c) = 41"
    by blast
  from lo have len: "length t = length (occurrence a b c)" by (metis length_map)
  from lo have nth: "\<And>k. k < length t \<Longrightarrow> lower (t ! k) = lower (occurrence a b c ! k)"
    by (metis length_map nth_map)
  from i have d: "drop i t = t ! i # drop (Suc i) t" by (simp add: Cons_nth_drop_Suc)
  with eq m' have ti: "t ! i = 69" and r: "drop (Suc i) t @ post = 88 # m' @ rest" by simp_all
  show False
  proof (cases "Suc i < length t")
    case True
    then have "drop (Suc i) t = t ! Suc i # drop (Suc (Suc i)) t" by (simp add: Cons_nth_drop_Suc)
    with r have "t ! Suc i = 88" by simp
    then have "lower (occurrence a b c ! Suc i) = 120" using nth [OF True] by (simp add: lower_def)
    moreover from i True len m(1) have "occurrence a b c ! Suc i \<in> set m"
      by (cases i) (auto simp: nth_Cons')
    ultimately show False using m(2) by blast
  next
    case False
    with i len have "i = length (occurrence a b c) - 1" by simp
    then have "occurrence a b c ! i = 41" using m(3) occurrence_not_Nil [of a b c]
      by (simp add: last_conv_nth)
    with nth [OF i(2)] ti show False by (simp add: lower_def)
  qed
qed

lemma variant_no_match:
  assumes sp: "list_all is_space a" "list_all is_space b" "list_all is_space c"
    and lo: "map lower t = map lower (occurrence a b c)"
    and ne: "t \<noteq> occurrence a b c"
  shows "\<forall>i<length t. match_here pattern (drop i t @ post) = None"
proof (intro allI impI)
  fix i assume "i < length t"
  show "match_here pattern (drop i t @ post) = None"
  proof (cases "i = 0")
    case True
    with variant_head [OF sp lo ne] show ?thesis by simp
  next
    case False
    with variant_inside [OF sp lo _ \<open>i < length t\<close>] show ?thesis by simp
  qed
qed

lemma variant_context:
  assumes sp: "list_all is_space a" "list_all is_space b" "list_all is_space c"
    and lo: "map lower t = map lower (occurrence a b c)"
    and ne: "t \<noteq> occurrence a b c"
    and pre: "re_findall pattern pre = []"
  shows "\<forall>i<length pre. match_here pattern (drop i pre @ t @ post) = None"
proof (intro allI impI)
  fix i assume i: "i < length pre"
  from occurrence_shape [OF sp] obtain m where m: "occurrence a b c = 69 # 88 # m" by blast
  with lo obtain e x t' where t: "t = e # x # t'" "lower e = lower 69" "lower x = lower 88"
    by (cases t; cases "tl t") auto
  then have ex: "lower x = 120" "e \<noteq> 41" by (auto simp: lower_def split: if_splits)
  from i obtain d ds where d: "drop i pre = d # ds" by (cases "drop i pre") auto
  with findall_Nil_no_match [OF pre i] have "match_here pattern (d # ds) = None" by simp
  from straddle [OF this ex, of "t' @ post"] d t(1) show "match_here pattern (drop i pre @ t @ post) = None"
    by simp
qed

lemma count_matches_pass:
  "(\<forall>i<length u. match_here pattern (drop i u @ z) = None) \<Longrightarrow>
   count_matches (u @ z) = count_matches z"
proof (induction u)
  case Nil
  then show ?case by simp
next
  case (Cons c u)
  from Cons.prems have 0: "match_here pattern (c # u @ z) = None" by fastforce
  from Cons.prems have "\<forall>i<length u. match_here pattern (drop i u @ z) = None" by fastforce
  with Cons.IH 0 show ?case by simp
qed

lemma findall_count: "length (re_findall pattern s) = count_matches s"
proof (induction s rule: scan_induct)
  case Nil
  then show ?case by (simp add: re_findall_Nil)
next
  case (Match s rest)
  from match_pattern_Some [OF Match(1)] obtain a b c where
    sp: "list_all is_space a" "list_all is_space b" "list_all is_space c"
    and s: "s = occurrence a b c @ rest" by blast
  from occurrence_shape [OF sp] obtain m where m: "occurrence a b c = 69 # 88 # m" by blast
  have "\<forall>i<length (88 # m). match_here pattern (drop i (88 # m) @ rest) = None"
  proof (intro allI impI)
    fix i assume "i < length (88 # m)"
    with variant_inside [OF sp refl, of "Suc i" rest] m
    show "match_here pattern (drop i (88 # m) @ rest) = None" by simp
  qed
  from count_matches_pass [OF this] have "count_matches ((88 # m) @ rest) = count_matches rest" .
  with Match s m show ?case by (simp add: re_findall_match)
next
  case (Skip c cs)
  then show ?case by (simp add: re_findall_skip)
qed

subsection \<open>One file and the loop\<close>

lemma process_missing:
  "\<not> path_exists (fs w) (path_join migrations_dir f) \<Longrightarrow>
   process_file f w = Inr (print (''File not found: '' @ f) w)"
  by (simp add: process_file_def)

lemma process_usable:
  assumes "fs w (path_join migrations_dir f) = Some (RegularFile True True (Some raw))"
  shows "process_file f w =
     Inr (w\<lparr>fs := (fs w)(path_join migrations_dir f \<mapsto>
                 RegularFile True True (Some (rewritten (linesep w) raw))),
            out := out w @ [''Fixing '' @ f @ ''...'',
                     ''  Made '' @ str_nat (length (re_findall pattern (universal_newlines raw)))
                       @ '' replacements'']\<rparr>)"
  using assms
  by (simp add: process_file_def path_exists_def read_text_def write_text_def print_def
        rewritten_def Let_def)

lemma usable_fileD:
  "usable_file disk p \<Longrightarrow> \<exists>raw. disk p = Some (RegularFile True True (Some raw))"
  by (auto simp: usable_file_def split: option.splits node.splits)

lemma process_raises:
  assumes "process_file f w = Inl (e, w')"
  shows "w' = print (''Fixing '' @ f @ ''...'') w \<and> path_exists (fs w) (path_join migrations_dir f)
         \<and> \<not> usable_file (fs w) (path_join migrations_dir f)"
  using assms
  by (auto simp: process_file_def path_exists_def read_text_def write_text_def print_def
        usable_file_def Let_def split: if_splits option.splits node.splits sum.splits)

lemma process_returns:
  assumes "process_file f w = Inr w'"
  shows "linesep w' = linesep w"
    and "\<And>p. p \<noteq> path_join migrations_dir f \<Longrightarrow> fs w' p = fs w p"
    and "\<And>p. path_exists (fs w') p = path_exists (fs w) p"
    and "path_exists (fs w) (path_join migrations_dir f) \<Longrightarrow>
           usable_file (fs w) (path_join migrations_dir f)"
  using assms
  by (auto simp: process_file_def path_exists_def read_text_def write_text_def print_def
        usable_file_def Let_def split: if_splits option.splits node.splits sum.splits)

lemma process_returns_out:
  assumes "process_file f w = Inr w'"
  shows "out w' = out w @ report_block (fs w) f"
  using assms
  by (auto simp: process_file_def path_exists_def read_text_def write_text_def print_def
        report_block_def Let_def split: if_splits option.splits node.splits sum.splits)

lemma report_block_cong:
  "fs1 (path_join migrations_dir f) = fs2 (path_join migrations_dir f) \<Longrightarrow>
   report_block fs1 f = report_block fs2 f"
  by (simp add: report_block_def path_exists_def read_text_def)

lemma for_loop_out:
  "distinct (map (path_join migrations_dir) fl) \<Longrightarrow> for_loop fl w = Inr w' \<Longrightarrow>
   out w' = out w @ concat (map (report_block (fs w)) fl)"
proof (induction fl arbitrary: w)
  case Nil
  then show ?case by simp
next
  case (Cons f fl)
  from Cons.prems(2) obtain w1 where
    1: "process_file f w = Inr w1" and 2: "for_loop fl w1 = Inr w'"
    by (auto split: sum.splits)
  from Cons.prems(1) have d: "distinct (map (path_join migrations_dir) fl)"
    and nf: "\<forall>g\<in>set fl. path_join migrations_dir g \<noteq> path_join migrations_dir f"
    by (auto simp: image_iff)
  have "\<forall>g\<in>set fl. report_block (fs w1) g = report_block (fs w) g"
    using nf process_returns(2) [OF 1] by (auto intro!: report_block_cong)
  then have "map (report_block (fs w1)) fl = map (report_block (fs w)) fl" by simp
  with Cons.IH [OF d 2] process_returns_out [OF 1] show ?case by simp
qed

lemma distinct_files: "distinct (map (path_join migrations_dir) files_to_fix)"
  by (simp add: files_to_fix_def path_join_def migrations_dir_def)

lemma for_loop_append:
  "for_loop (xs @ ys) w = (case for_loop xs w of Inl x \<Rightarrow> Inl x | Inr w' \<Rightarrow> for_loop ys w')"
  by (induction xs arbitrary: w) (auto split: sum.splits)

lemma for_loop_frame:
  "for_loop fl w = Inr w' \<Longrightarrow>
   linesep w' = linesep w \<and>
   (\<forall>p. p \<notin> set (map (path_join migrations_dir) fl) \<longrightarrow> fs w' p = fs w p) \<and>
   (\<forall>p. path_exists (fs w') p = path_exists (fs w) p)"
proof (induction fl arbitrary: w)
  case Nil
  then show ?case by simp
next
  case (Cons f fl)
  from Cons.prems obtain w1 where
    1: "process_file f w = Inr w1" and 2: "for_loop fl w1 = Inr w'"
    by (auto split: sum.splits)
  from Cons.IH [OF 2] process_returns(1-3) [OF 1] show ?case by auto
qed

lemma process_io_error:
  assumes "path_exists (fs w) (path_join migrations_dir f)"
    and "read_text (fs w) (path_join migrations_dir f) = Inl e \<or>
         (\<exists>content. read_text (fs w) (path_join migrations_dir f) = Inr content \<and>
            write_text (linesep w) (fs w) (path_join migrations_dir f)
              (re_sub pattern replacement content) = Inl e)"
  shows "process_file f w = Inl (e, print (''Fixing '' @ f @ ''...'') w)"
  using assms by (auto simp: process_file_def print_def Let_def)

lemma raises_iff:
  "(\<exists>e w'. process_file f w = Inl (e, w')) \<longleftrightarrow>
   path_exists (fs w) (path_join migrations_dir f) \<and>
   \<not> usable_file (fs w) (path_join migrations_dir f)"
  by (auto simp: process_file_def path_exists_def read_text_def write_text_def print_def
        usable_file_def Let_def split: if_splits option.splits node.splits sum.splits)

lemma process_unmatched:
  assumes "fs w (path_join migrations_dir f) = Some (RegularFile True True (Some raw))"
    and "re_findall pattern (universal_newlines raw) = []"
  shows "process_file f w =
     Inr (w\<lparr>fs := (fs w)(path_join migrations_dir f \<mapsto>
                 RegularFile True True
                   (Some (translate_newlines (linesep w) (universal_newlines raw)))),
            out := out w @ [''Fixing '' @ f @ ''...'', ''  Made 0 replacements'']\<rparr>)"
  using process_usable [OF assms(1)] assms(2)
  by (simp add: rewritten_def findall_Nil_sub_id str_nat.simps [of 0])

subsection \<open>Line ends and a second run\<close>

lemma universal_no_cr: "13 \<notin> set (universal_newlines s)"
  by (induction s rule: universal_newlines.induct) auto

lemma universal_id: "13 \<notin> set s \<Longrightarrow> universal_newlines s = s"
  by (induction s rule: universal_newlines.induct) auto

lemma translate_Cons:
  "translate_newlines ls (c # s) = (if c = 10 then ls else [c]) @ translate_newlines ls s"
  by (simp add: translate_newlines_def)

lemma translate_lf: "translate_newlines [10] s = s"
  by (induction s) (simp_all add: translate_newlines_def)

lemma universal_Cons: "c \<noteq> 13 \<Longrightarrow> universal_newlines (c # s) = c # universal_newlines s"
  by (cases s) simp_all

lemma universal_crlf: "universal_newlines (13 # 10 # s) = 10 # universal_newlines s"
  by simp

lemma universal_translate:
  assumes "ls = [10] \<or> ls = [13, 10]" "13 \<notin> set t"
  shows "universal_newlines (translate_newlines ls t) = t"
  using assms(2)
proof (induction t)
  case Nil
  then show ?case by (simp add: translate_newlines_def)
next
  case (Cons c t)
  then have "c \<noteq> 13" and ih: "universal_newlines (translate_newlines ls t) = t" by auto
  show ?case
  proof (cases "c = 10")
    case True
    with assms(1) ih show ?thesis
      by (auto simp: translate_Cons universal_Cons universal_crlf simp del: universal_newlines.simps)
  next
    case False
    with \<open>c \<noteq> 13\<close> ih show ?thesis
      by (simp add: translate_Cons universal_Cons del: universal_newlines.simps)
  qed
qed

lemma set_re_sub: "set (re_sub pattern r s) \<subseteq> set s \<union> set r"
proof (induction s rule: scan_induct)
  case Nil
  then show ?case by (simp add: re_sub_Nil)
next
  case (Match s rest)
  from match_pattern_Some [OF Match(1)] obtain m where "s = m @ rest" by blast
  with Match show ?case by (auto simp: re_sub_match)
next
  case (Skip c cs)
  then show ?case by (auto simp: re_sub_skip)
qed

lemma replacement_no_cr: "13 \<notin> set replacement"
  by (simp add: replacement_def str_of_def)

lemma rewritten_fixed:
  assumes "ls = [10] \<or> ls = [13, 10]"
  shows "translate_newlines ls (universal_newlines (rewritten ls raw)) = rewritten ls raw \<and>
         re_findall pattern (universal_newlines (rewritten ls raw)) = []"
proof -
  let ?t = "re_sub pattern replacement (universal_newlines raw)"
  have "13 \<notin> set ?t"
    using set_re_sub [of replacement "universal_newlines raw"] universal_no_cr [of raw]
      replacement_no_cr by blast
  then have "universal_newlines (rewritten ls raw) = ?t"
    unfolding rewritten_def by (rule universal_translate [OF assms])
  then show ?thesis by (simp add: rewritten_def findall_sub_Nil)
qed

lemma process_fixed:
  assumes "fixed_file (linesep w) (fs w) (path_join migrations_dir f)"
  shows "process_file f w =
           Inr (w\<lparr>out := out w @ [''Fixing '' @ f @ ''...'', ''  Made 0 replacements'']\<rparr>)"
proof -
  from assms obtain raw where
    n: "fs w (path_join migrations_dir f) = Some (RegularFile True True (Some raw))"
    and t: "translate_newlines (linesep w) (universal_newlines raw) = raw"
    and z: "re_findall pattern (universal_newlines raw) = []"
    by (auto simp: fixed_file_def split: option.splits node.splits)
  from z have "re_sub pattern replacement (universal_newlines raw) = universal_newlines raw"
    by (rule findall_Nil_sub_id)
  with t have "rewritten (linesep w) raw = raw" by (simp add: rewritten_def)
  moreover from n have "(fs w)(path_join migrations_dir f \<mapsto> RegularFile True True (Some raw)) = fs w"
    by (rule map_upd_triv)
  moreover have "str_nat 0 = ''0''" by (simp add: str_nat.simps)
  ultimately show ?thesis using process_usable [OF n] z by simp
qed

lemma process_keeps_fixed:
  assumes "process_file f w = Inr w1" "fixed_file (linesep w) (fs w) p"
  shows "fixed_file (linesep w1) (fs w1) p"
proof (cases "p = path_join migrations_dir f")
  case True
  with process_fixed [of w f] assms show ?thesis by auto
next
  case False
  with process_returns(1,2) [OF assms(1)] assms(2) show ?thesis by (simp add: fixed_file_def)
qed

lemma for_loop_keeps_fixed:
  "for_loop fl w = Inr w' \<Longrightarrow> fixed_file (linesep w) (fs w) p \<Longrightarrow>
   fixed_file (linesep w') (fs w') p"
proof (induction fl arbitrary: w)
  case Nil
  then show ?case by simp
next
  case (Cons f fl)
  from Cons.prems(1) obtain w1 where
    1: "process_file f w = Inr w1" and 2: "for_loop fl w1 = Inr w'"
    by (auto split: sum.splits)
  from Cons.IH [OF 2 process_keeps_fixed [OF 1 Cons.prems(2)]] show ?case .
qed

lemma process_makes_fixed:
  assumes "process_file f w = Inr w1" "linesep w = [10] \<or> linesep w = [13, 10]"
    and "path_exists (fs w) (path_join migrations_dir f)"
  shows "fixed_file (linesep w1) (fs w1) (path_join migrations_dir f)"
proof -
  from process_returns(4) [OF assms(1,3)] usable_fileD obtain raw where
    n: "fs w (path_join migrations_dir f) = Some (RegularFile True True (Some raw))" by blast
  from process_usable [OF n] assms(1) rewritten_fixed [OF assms(2), of raw]
  show ?thesis by (auto simp: fixed_file_def)
qed

lemma first_run_fixes:
  "for_loop fl w = Inr w' \<Longrightarrow> linesep w = [10] \<or> linesep w = [13, 10] \<Longrightarrow>
   \<forall>f\<in>set fl. path_exists (fs w') (path_join migrations_dir f) \<longrightarrow>
     fixed_file (linesep w') (fs w') (path_join migrations_dir f)"
proof (induction fl arbitrary: w)
  case Nil
  then show ?case by simp
next
  case (Cons f fl)
  from Cons.prems(1) obtain w1 where
    1: "process_file f w = Inr w1" and 2: "for_loop fl w1 = Inr w'"
    by (auto split: sum.splits)
  from process_returns(1) [OF 1] Cons.prems(2)
  have ls: "linesep w1 = [10] \<or> linesep w1 = [13, 10]" by simp
  have "fixed_file (linesep w') (fs w') (path_join migrations_dir f)"
    if "path_exists (fs w') (path_join migrations_dir f)"
  proof -
    from that for_loop_frame [OF 2] process_returns(3) [OF 1]
    have "path_exists (fs w) (path_join migrations_dir f)" by simp
    from for_loop_keeps_fixed [OF 2 process_makes_fixed [OF 1 Cons.prems(2) this]]
    show ?thesis .
  qed
  with Cons.IH [OF 2 ls] show ?case by simp
qed

lemma second_run:
  "\<forall>f\<in>set fl. path_exists (fs w) (path_join migrations_dir f) \<longrightarrow>
     fixed_file (linesep w) (fs w) (path_join migrations_dir f) \<Longrightarrow>
   for_loop fl w = Inr (w\<lparr>out := out w @ concat (map (second_report (fs w)) fl)\<rparr>)"
proof (induction fl arbitrary: w)
  case Nil
  then show ?case by simp
next
  case (Cons f fl)
  let ?w1 = "w\<lparr>out := out w @ second_report (fs w) f\<rparr>"
  have 1: "process_file f w = Inr ?w1"
  proof (cases "path_exists (fs w) (path_join migrations_dir f)")
    case True
    with Cons.prems process_fixed [of w f] show ?thesis by (simp add: second_report_def)
  next
    case False
    then show ?thesis by (simp add: process_missing second_report_def print_def)
  qed
  have "for_loop fl ?w1 = Inr (?w1\<lparr>out := out ?w1 @ concat (map (second_report (fs ?w1)) fl)\<rparr>)"
    by (rule Cons.IH) (use Cons.prems in simp)
  with 1 show ?case by simp
qed

lemma process_keeps_usable:
  assumes "process_file f w = Inr w1" "usable_file (fs w) p"
  shows "usable_file (fs w1) p"
proof (cases "p = path_join migrations_dir f")
  case True
  with usable_fileD [OF assms(2)] obtain raw where
    "fs w (path_join migrations_dir f) = Some (RegularFile True True (Some raw))" by blast
  from process_usable [OF this] assms(1) True show ?thesis by (auto simp: usable_file_def)
next
  case False
  with process_returns(2) [OF assms(1)] assms(2) show ?thesis by (simp add: usable_file_def)
qed

lemma for_loop_returns:
  "\<forall>g\<in>set fl. path_exists (fs w) (path_join migrations_dir g) \<longrightarrow>
      usable_file (fs w) (path_join migrations_dir g) \<Longrightarrow>
   \<exists>w'. for_loop fl w = Inr w'"
proof (induction fl arbitrary: w)
  case Nil
  then show ?case by simp
next
  case (Cons f fl)
  have "\<exists>w1. process_file f w = Inr w1"
  proof (cases "path_exists (fs w) (path_join migrations_dir f)")
    case True
    with Cons.prems usable_fileD obtain raw where
      "fs w (path_join migrations_dir f) = Some (RegularFile True True (Some raw))"
      by (metis list.set_intros(1))
    from process_usable [OF this] show ?thesis by blast
  next
    case False
    then show ?thesis by (simp add: process_missing)
  qed
  then obtain w1 where 1: "process_file f w = Inr w1" by blast
  have "\<forall>g\<in>set fl. path_exists (fs w1) (path_join migrations_dir g) \<longrightarrow>
      usable_file (fs w1) (path_join migrations_dir g)"
    using Cons.prems process_returns(3) [OF 1] process_keeps_usable [OF 1] by simp
  from Cons.IH [OF this] 1 show ?case by simp
qed

lemma report_block_no_Done: "''Done!'' \<notin> set (report_block disk f)"
  by (simp add: report_block_def)

lemma for_loop_no_Done:
  "for_loop fl w = Inr w' \<Longrightarrow> \<exists>ls. out w' = out w @ ls \<and> ''Done!'' \<notin> set ls"
proof (induction fl arbitrary: w)
  case Nil
  then show ?case by simp
next
  case (Cons f fl)
  from Cons.prems obtain w1 where
    1: "process_file f w = Inr w1" and 2: "for_loop fl w1 = Inr w'"
    by (auto split: sum.splits)
  from Cons.IH [OF 2] obtain ls where "out w' = out w1 @ ls" "''Done!'' \<notin> set ls" by blast
  with process_returns_out [OF 1] report_block_no_Done [of "fs w" f]
  have "out w' = out w @ (report_block (fs w) f @ ls) \<and> ''Done!'' \<notin> set (report_block (fs w) f @ ls)"
    by simp
  then show ?case by blast
qed

subsection \<open>The whole run\<close>

lemma match_needs_X: "c \<noteq> 88 \<Longrightarrow> match_here pattern (e # c # s) = None"
  by (simp add: pattern_def lit_def tok_exists_def str_of_def)

lemma idempotent_text:
  "re_sub pattern replacement (re_sub pattern replacement s) = re_sub pattern replacement s"
  by (rule findall_Nil_sub_id) (rule findall_sub_Nil)

lemma main_twice:
  assumes "main w = Inr w1" "linesep w = [10] \<or> linesep w = [13, 10]"
  shows "main w1 =
     Inr (w1\<lparr>out := out w1 @ concat (map (second_report (fs w1)) files_to_fix) @ [''Done!'']\<rparr>)"
proof -
  from assms(1) obtain w0 where 0: "for_loop files_to_fix w = Inr w0"
    and 1: "w1 = print ''Done!'' w0"
    by (auto simp: main_def split: sum.splits)
  from 1 have same: "fs w1 = fs w0" "linesep w1 = linesep w0" by (simp_all add: print_def)
  from first_run_fixes [OF 0 assms(2)] same
  have "\<forall>f\<in>set files_to_fix. path_exists (fs w1) (path_join migrations_dir f) \<longrightarrow>
          fixed_file (linesep w1) (fs w1) (path_join migrations_dir f)" by simp
  from second_run [OF this] show ?thesis by (simp add: main_def print_def)
qed

lemma main_returns:
  assumes "\<forall>g\<in>set files_to_fix. path_exists (fs w) (path_join migrations_dir g) \<longrightarrow>
             usable_file (fs w) (path_join migrations_dir g)"
  shows "\<exists>w'. main w = Inr w' \<and> last (out w') = ''Done!'' \<and>
           out w' = out w @ expected_output (fs w) files_to_fix \<and>
           (\<forall>p. path_exists (fs w') p = path_exists (fs w) p)"
proof -
  from for_loop_returns [OF assms] obtain w0 where 0: "for_loop files_to_fix w = Inr w0" by blast
  from for_loop_out [OF distinct_files 0] for_loop_frame [OF 0] 0
  show ?thesis by (simp add: main_def print_def expected_output_def)
qed


lemma raise_aborts:
  assumes "for_loop pre w = Inr w1" "process_file f w1 = Inl (e, w2)"
  shows "for_loop (pre @ f # post) w = Inl (e, w2)"
    and "fs w2 = fs w1"
    and "\<forall>p. p \<notin> set (map (path_join migrations_dir) pre) \<longrightarrow> fs w2 p = fs w p"
    and "out w2 = out w1 @ [''Fixing '' @ f @ ''...'']"
    and "''Done!'' \<notin> set (drop (length (out w)) (out w2))"
proof -
  show "for_loop (pre @ f # post) w = Inl (e, w2)"
    using assms by (simp add: for_loop_append)
  from process_raises [OF assms(2)] have w2: "w2 = print (''Fixing '' @ f @ ''...'') w1" by simp
  then show "fs w2 = fs w1" and o: "out w2 = out w1 @ [''Fixing '' @ f @ ''...'']"
    by (simp_all add: print_def)
  from for_loop_frame [OF assms(1)] \<open>fs w2 = fs w1\<close>
  show "\<forall>p. p \<notin> set (map (path_join migrations_dir) pre) \<longrightarrow> fs w2 p = fs w p" by simp
  from for_loop_no_Done [OF assms(1)] obtain ls where "out w1 = out w @ ls" "''Done!'' \<notin> set ls"
    by blast
  with o show "''Done!'' \<notin> set (drop (length (out w)) (out w2))" by simp
qed

subsection \<open>The sample inputs\<close>

lemma first_path_eq: "path_join migrations_dir first_file = first_path"
  by (simp add: first_path_def first_file_def path_join_def migrations_dir_def)

lemma world_with_file:
  "fs (world_with raw) (path_join migrations_dir first_file) =
     Some (RegularFile True True (Some raw))"
  by (simp add: world_with_def first_path_eq)

lemma policy_sql_plain: "universal_newlines policy_sql = policy_sql"
  by (rule universal_id)
     (simp add: policy_sql_def occurrence_def tok_exists_def tok_select_def tok_where_def
        tok_close_def str_of_def)

lemma policy_sql_scan:
  "re_sub pattern replacement policy_sql = str_of ''USING (public.is_admin());'' \<and>
   re_findall pattern policy_sql = [occurrence [10, 32, 32] [10, 32, 32] [10]]"
  using sub_context [of "[10, 32, 32]" "[10, 32, 32]" "[10]" replacement "str_of ''USING (''"
      "str_of '');''"]
  by (simp add: policy_sql_def is_space_def str_of_def re_findall_skip re_findall_Nil
        re_sub_skip re_sub_Nil match_needs_E replacement_def)

lemma str_nat_digit: "str_nat 0 = ''0''" "str_nat 1 = ''1''" "str_nat (Suc 0) = ''1''"
  by (simp_all add: str_nat.simps)

lemma world_with_rest: "linesep (world_with raw) = [10]" "out (world_with raw) = []"
  by (simp_all add: world_with_def)

lemma one_line_scan:
  "re_sub pattern replacement one_line_sql = replacement \<and>
   re_findall pattern one_line_sql = [one_line_sql]"
proof -
  have "list_all is_space []" "list_all is_space [32]" by (simp_all add: is_space_def)
  from sub_context [OF this(1) this(2) this(1), of replacement "[]" "[]"]
  show ?thesis by (simp add: one_line_sql_def re_sub_Nil re_findall_Nil)
qed

lemma where_alone_scan:
  "re_sub pattern replacement where_alone_sql = where_alone_sql \<and>
   re_findall pattern where_alone_sql = []"
proof -
  have 0: "match_here pattern where_alone_sql = None"
    by (simp add: where_alone_sql_def pattern_def lit_def tok_exists_def tok_select_def
          tok_where_def tok_close_def str_of_def is_space_def)
  have 1: "re_sub pattern replacement (tl where_alone_sql) = tl where_alone_sql \<and>
           re_findall pattern (tl where_alone_sql) = []"
    by (simp add: where_alone_sql_def tok_exists_def tok_select_def tok_close_def str_of_def
          re_sub_skip re_findall_skip re_sub_Nil re_findall_Nil match_needs_E match_needs_X)
  have 2: "where_alone_sql = 69 # tl where_alone_sql"
    by (simp add: where_alone_sql_def tok_exists_def str_of_def)
  from 0 2 have "match_here pattern (69 # tl where_alone_sql) = None" by simp
  from re_sub_skip [OF this, of replacement] re_findall_skip [OF this] 1 2
  show ?thesis by simp
qed

lemma main_policy_world: "main (world_with policy_sql) = Inr world_after"
  by (simp add: main_def files_to_fix_def process_file_def path_exists_def read_text_def
        write_text_def print_def world_with_def world_after_def path_join_def
        migrations_dir_def first_path_def policy_sql_plain policy_sql_scan translate_lf
        str_nat_digit Let_def)

lemma half_fixed_plain: "universal_newlines half_fixed_sql = half_fixed_sql"
  by (rule universal_id)
     (simp add: half_fixed_sql_def one_line_sql_def replacement_def occurrence_def
        tok_exists_def tok_select_def tok_where_def tok_close_def str_of_def)

lemma half_fixed_scan:
  "re_sub pattern replacement half_fixed_sql = replacement @ str_of '' OR '' @ replacement \<and>
   re_findall pattern half_fixed_sql = [one_line_sql]"
proof -
  have "list_all is_space []" "list_all is_space [32]" by (simp_all add: is_space_def)
  from sub_context [OF this(1) this(2) this(1), of replacement "replacement @ str_of '' OR ''" "[]"]
  show ?thesis
    by (simp add: half_fixed_sql_def one_line_sql_def re_sub_replacement re_findall_replacement
          re_sub_Nil re_findall_Nil)
       (simp add: str_of_def re_sub_skip re_findall_skip re_sub_Nil re_findall_Nil match_needs_E)
qed

lemma half_fixed_counts:
  "count_occurrences replacement half_fixed_sql = 1 \<and>
   count_occurrences replacement (replacement @ str_of '' OR '' @ replacement) = 2"
proof -
  have r: "replacement \<noteq> []" "hd replacement = 112" by (simp_all add: replacement_def str_of_def)
  have 1: "count_occurrences replacement one_line_sql = 0"
    using count_skip [OF r(1), of one_line_sql "[]"] occurrence_no_p [of "[]" "[32]" "[]"] r(2)
    by (simp add: one_line_sql_def is_space_def)
  have 2: "count_occurrences replacement (replacement @ []) = 1"
    unfolding count_replacement by simp
  have 3: "\<And>z. count_occurrences replacement (str_of '' OR '' @ z) = count_occurrences replacement z"
    using count_skip [OF r(1), of "str_of '' OR ''"] r(2) by (simp add: str_of_def)
  from 1 2 3 show ?thesis by (simp add: half_fixed_sql_def count_replacement)
qed

lemma crlf_read: "universal_newlines crlf_sql = [97, 10, 98]"
  by (simp add: crlf_sql_def str_of_def)

lemma crlf_scan:
  "re_sub pattern replacement [97, 10, 98] = [97, 10, 98] \<and> re_findall pattern [97, 10, 98] = []"
  by (simp add: re_sub_skip re_findall_skip re_sub_Nil re_findall_Nil match_needs_E)

lemma where_alone_plain: "13 \<notin> set where_alone_sql"
  by (simp add: where_alone_sql_def tok_exists_def tok_select_def tok_close_def str_of_def)

lemma locked_first: "for_loop [first_file] locked_world = Inr locked_after_first"
  by (simp add: process_file_def path_exists_def read_text_def write_text_def print_def
        locked_world_def locked_after_first_def path_join_def migrations_dir_def first_path_def
        first_file_def second_file_def policy_sql_plain policy_sql_scan translate_lf
        str_nat_digit Let_def fun_upd_twist)

lemma locked_second:
  "process_file second_file locked_after_first = Inl (PermissionError, locked_at_error)"
  by (simp add: process_file_def path_exists_def read_text_def print_def
        locked_after_first_def locked_at_error_def path_join_def migrations_dir_def
        first_path_def second_file_def Let_def)

lemma files_split: "files_to_fix = [first_file] @ second_file # drop 2 files_to_fix"
  by (simp add: files_to_fix_def first_file_def second_file_def)

lemma lower_exists_facts:
  "map lower lower_exists_sql = map lower (occurrence [] [32] [])"
  "lower_exists_sql \<noteq> occurrence [] [32] []"
  by (simp_all add: lower_exists_sql_def occurrence_def tok_exists_def tok_select_def
        tok_where_def tok_close_def str_of_def lower_def)

lemma brackets_scan:
  "re_findall pattern (str_of ''USING ('') = []" "re_findall pattern (str_of '');'') = []"
  by (simp_all add: str_of_def re_findall_skip re_findall_Nil match_needs_E)

lemma world_of_file:
  "fs (world_of n) (path_join migrations_dir first_file) = Some n"
  "linesep (world_of n) = [10]" "out (world_of n) = []"
  by (simp_all add: world_of_def first_path_eq)

lemma files_head: "files_to_fix = [] @ first_file # tl files_to_fix"
  by (simp add: files_to_fix_def first_file_def)

lemma lower_policy_plain: "13 \<notin> set lower_policy_sql"
  by (simp add: lower_policy_sql_def lower_exists_sql_def tok_select_def tok_where_def
        tok_close_def str_of_def)

lemma policy_sql_subn: "re_subn pattern replacement policy_sql = (str_of ''USING (public.is_admin());'', 1)"
  by (simp add: re_subn_sub policy_sql_scan)

lemma locked_read:
  "path_exists (fs locked_after_first) (path_join migrations_dir second_file)"
  "read_text (fs locked_after_first) (path_join migrations_dir second_file) = Inl PermissionError"
  by (simp_all add: path_exists_def read_text_def locked_after_first_def path_join_def
        migrations_dir_def first_path_def second_file_def)

section \<open>The properties of the specification\<close>

text \<open>
  C1. For a file the script can read and write, the text written back has no match of the
  pattern left; this holds in particular when the text read has at least one. The text
  written back is the text read with every match replaced by \<^verbatim>\<open>public.is_admin()\<close> and
  everything between the matches kept: cut at its matches into the pieces \<open>gaps\<close>, the
  text read is the pieces with the matches in between, the text written the same pieces
  with the replacement in between. So an occurrence of the pattern inside any text becomes
  the replacement, and a text without a match is written back as it is.
\<close>

theorem written_text_has_no_match:
  assumes "fs w (path_join migrations_dir f) = Some (RegularFile True True (Some raw))"
  shows "(\<exists>w'. process_file f w = Inr w' \<and>
           fs w' (path_join migrations_dir f) =
             Some (RegularFile True True (Some (translate_newlines (linesep w)
               (re_sub pattern replacement (universal_newlines raw))))) \<and>
           re_findall pattern (re_sub pattern replacement (universal_newlines raw)) = []) \<and>
         (\<exists>gaps. length gaps = Suc (length (re_findall pattern (universal_newlines raw))) \<and>
            universal_newlines raw = weave gaps (re_findall pattern (universal_newlines raw)) \<and>
            re_sub pattern replacement (universal_newlines raw) =
              weave gaps
                (replicate (length (re_findall pattern (universal_newlines raw))) replacement)) \<and>
         (list_all is_space a \<and> list_all is_space b \<and> list_all is_space c \<and>
          universal_newlines raw = pre @ occurrence a b c @ post \<longrightarrow>
            re_sub pattern replacement (universal_newlines raw) =
              re_sub pattern replacement pre @ replacement @ re_sub pattern replacement post) \<and>
         (re_findall pattern (universal_newlines raw) = [] \<longrightarrow>
            re_sub pattern replacement (universal_newlines raw) = universal_newlines raw)"
proof -
  have 1: "\<exists>w'. process_file f w = Inr w' \<and>
           fs w' (path_join migrations_dir f) =
             Some (RegularFile True True (Some (translate_newlines (linesep w)
               (re_sub pattern replacement (universal_newlines raw))))) \<and>
           re_findall pattern (re_sub pattern replacement (universal_newlines raw)) = []"
    using process_usable [OF assms] by (simp add: findall_sub_Nil rewritten_def)
  have 3: "re_sub pattern replacement (universal_newlines raw) =
              re_sub pattern replacement pre @ replacement @ re_sub pattern replacement post"
    if "list_all is_space a" "list_all is_space b" "list_all is_space c"
      and "universal_newlines raw = pre @ occurrence a b c @ post"
    using sub_context [OF that(1-3), of replacement pre post] that(4) by simp
  from 1 weave_scan [of "universal_newlines raw" replacement] 3 findall_Nil_sub_id
  show ?thesis by blast
qed

theorem written_text_has_no_match_witness:
  "fs (world_with policy_sql) (path_join migrations_dir first_file) =
     Some (RegularFile True True (Some policy_sql)) \<and>
   re_findall pattern (universal_newlines policy_sql) \<noteq> [] \<and>
   (\<exists>w'. process_file first_file (world_with policy_sql) = Inr w' \<and>
      fs w' (path_join migrations_dir first_file) =
        Some (RegularFile True True (Some (str_of ''USING (public.is_admin());''))) \<and>
      re_findall pattern (str_of ''USING (public.is_admin());'') = []) \<and>
   list_all is_space [10, 32, 32] \<and> list_all is_space [10] \<and>
   universal_newlines policy_sql =
     str_of ''USING ('' @ occurrence [10, 32, 32] [10, 32, 32] [10] @ str_of '');'' \<and>
   re_sub pattern replacement (universal_newlines policy_sql) =
     re_sub pattern replacement (str_of ''USING ('') @ replacement @
     re_sub pattern replacement (str_of '');'') \<and>
   fs (world_with where_alone_sql) (path_join migrations_dir first_file) =
     Some (RegularFile True True (Some where_alone_sql)) \<and>
   re_findall pattern (universal_newlines where_alone_sql) = [] \<and>
   re_sub pattern replacement (universal_newlines where_alone_sql) =
     universal_newlines where_alone_sql"
proof -
  note t1 = written_text_has_no_match [OF world_with_file [of policy_sql],
      where a = "[10, 32, 32]" and b = "[10, 32, 32]" and c = "[10]"
        and pre = "str_of ''USING (''" and post = "str_of '');''"]
  note t2 = written_text_has_no_match [OF world_with_file [of where_alone_sql]]
  have h: "list_all is_space [10, 32, 32]" "list_all is_space [10]"
    by (simp_all add: is_space_def)
  have e: "universal_newlines policy_sql =
     str_of ''USING ('' @ occurrence [10, 32, 32] [10, 32, 32] [10] @ str_of '');''"
    unfolding policy_sql_plain by (simp add: policy_sql_def)
  have n: "re_findall pattern (universal_newlines policy_sql) \<noteq> []"
    by (simp add: policy_sql_plain policy_sql_scan)
  have A: "\<exists>w'. process_file first_file (world_with policy_sql) = Inr w' \<and>
      fs w' (path_join migrations_dir first_file) =
        Some (RegularFile True True (Some (str_of ''USING (public.is_admin());''))) \<and>
      re_findall pattern (str_of ''USING (public.is_admin());'') = []"
    using t1 [THEN conjunct1]
    by (simp add: policy_sql_plain policy_sql_scan translate_lf world_with_rest)
  from t1 h e have B: "re_sub pattern replacement (universal_newlines policy_sql) =
     re_sub pattern replacement (str_of ''USING ('') @ replacement @
     re_sub pattern replacement (str_of '');'')" by blast
  have z: "re_findall pattern (universal_newlines where_alone_sql) = []"
    by (simp add: universal_id [OF where_alone_plain] where_alone_scan)
  from t2 z have C: "re_sub pattern replacement (universal_newlines where_alone_sql) =
     universal_newlines where_alone_sql" by blast
  from world_with_file [of policy_sql] world_with_file [of where_alone_sql] n A h e B z C
  show ?thesis by blast
qed

text \<open>
  C2. The pattern has \<^verbatim>\<open>\s*\<close> in three places only: behind \<^verbatim>\<open>EXISTS (\<close>, between \<^verbatim>\<open>user_roles\<close>
  and \<^verbatim>\<open>WHERE\<close>, and before the closing parenthesis. Everywhere else its tokens are
  separated by exactly one space, so a predicate with a line break between \<^verbatim>\<open>WHERE\<close> and
  \<^verbatim>\<open>user_id\<close> is not matched, while the same predicate on one line is.
\<close>

theorem whitespace_tolerance_counterexample:
  "re_sub pattern replacement one_line_sql = replacement \<and>
   re_findall pattern one_line_sql = [one_line_sql] \<and>
   re_sub pattern replacement where_alone_sql = where_alone_sql \<and>
   re_findall pattern where_alone_sql = []"
  by (simp add: one_line_scan where_alone_scan)

text \<open>
  C2, amended. With any white space \<open>a\<close>, \<open>b\<close>, \<open>c\<close> (line breaks included) in the three places
  where the pattern has \<^verbatim>\<open>\s*\<close>, and inside any text, the predicate is matched and replaced
  exactly as the predicate on one line is.
\<close>

theorem whitespace_tolerance:
  assumes "list_all is_space a" "list_all is_space b" "list_all is_space c"
  shows "re_sub pattern replacement (pre @ occurrence a b c @ post) =
           re_sub pattern replacement (pre @ one_line_sql @ post) \<and>
         length (re_findall pattern (pre @ occurrence a b c @ post)) =
           length (re_findall pattern (pre @ one_line_sql @ post)) \<and>
         re_sub pattern replacement (pre @ occurrence a b c @ post) =
           re_sub pattern replacement pre @ replacement @ re_sub pattern replacement post \<and>
         re_findall pattern (pre @ occurrence a b c @ post) =
           re_findall pattern pre @ occurrence a b c # re_findall pattern post"
proof -
  have "list_all is_space []" "list_all is_space [32]" by (simp_all add: is_space_def)
  from sub_context [OF this(1) this(2) this(1), of replacement pre post]
    sub_context [OF assms, of replacement pre post]
  show ?thesis by (simp add: one_line_sql_def)
qed

theorem whitespace_tolerance_witness:
  "list_all is_space [10, 32, 32] \<and> list_all is_space [10] \<and>
   re_sub pattern replacement policy_sql =
     re_sub pattern replacement (str_of ''USING ('' @ one_line_sql @ str_of '');'') \<and>
   length (re_findall pattern policy_sql) =
     length (re_findall pattern (str_of ''USING ('' @ one_line_sql @ str_of '');''))"
proof -
  have h: "list_all is_space [10, 32, 32]" "list_all is_space [10]"
    by (simp_all add: is_space_def)
  note t = whitespace_tolerance [OF h(1) h(1) h(2), of "str_of ''USING (''" "str_of '');''",
      folded policy_sql_def]
  from t h show ?thesis by blast
qed

text \<open>
  C3. Substituting a second time changes nothing and finds nothing. So when a run has
  finished, a second run leaves every file as the first run left it and prints
  \<^verbatim>\<open>  Made 0 replacements\<close> for every file that exists. (The line separator of the platform
  is \<^verbatim>\<open>\n\<close> or \<^verbatim>\<open>\r\n\<close>.)
\<close>

theorem rewrite_is_idempotent:
  assumes "main w = Inr w1" "linesep w = [10] \<or> linesep w = [13, 10]"
  shows "re_sub pattern replacement (re_sub pattern replacement s) =
           re_sub pattern replacement s \<and>
         re_findall pattern (re_sub pattern replacement s) = [] \<and>
         (\<exists>w2. main w1 = Inr w2 \<and> fs w2 = fs w1 \<and>
            out w2 = out w1 @ concat (map (second_report (fs w1)) files_to_fix) @ [''Done!''])"
  using main_twice [OF assms] by (simp add: idempotent_text findall_sub_Nil)

theorem rewrite_is_idempotent_witness:
  "main (world_with policy_sql) = Inr world_after \<and>
   linesep (world_with policy_sql) = [10] \<and>
   re_sub pattern replacement (re_sub pattern replacement policy_sql) =
     re_sub pattern replacement policy_sql \<and>
   (\<exists>w2. main world_after = Inr w2 \<and> fs w2 = fs world_after \<and>
      out w2 = out world_after @
        [''Fixing 20250807120000_create_performance_monitoring.sql...'',
         ''  Made 0 replacements'',
         ''File not found: 20250808120000_create_batch_jobs_and_webhook_monitoring.sql'',
         ''File not found: 20250808140000_create_migration_control_system.sql'',
         ''File not found: 20250808150000_create_production_validation_system.sql'',
         ''File not found: 20250808160000_create_global_optimization_system.sql'',
         ''File not found: 20250808170000_create_security_hardening_system.sql'',
         ''File not found: 20250808180000_create_connection_pooling_system.sql'',
         ''File not found: 20250808190000_create_performance_optimization_system.sql'',
         ''Done!''])"
proof -
  have l: "linesep (world_with policy_sql) = [10] \<or> linesep (world_with policy_sql) = [13, 10]"
    by (simp add: world_with_rest)
  have r: "concat (map (second_report (fs world_after)) files_to_fix) =
        [''Fixing 20250807120000_create_performance_monitoring.sql...'',
         ''  Made 0 replacements'',
         ''File not found: 20250808120000_create_batch_jobs_and_webhook_monitoring.sql'',
         ''File not found: 20250808140000_create_migration_control_system.sql'',
         ''File not found: 20250808150000_create_production_validation_system.sql'',
         ''File not found: 20250808160000_create_global_optimization_system.sql'',
         ''File not found: 20250808170000_create_security_hardening_system.sql'',
         ''File not found: 20250808180000_create_connection_pooling_system.sql'',
         ''File not found: 20250808190000_create_performance_optimization_system.sql'']"
    by (simp add: second_report_def files_to_fix_def world_after_def path_exists_def
          path_join_def migrations_dir_def first_path_def)
  from rewrite_is_idempotent [OF main_policy_world l, of policy_sql] r
  show ?thesis by (simp add: main_policy_world world_with_rest)
qed

text \<open>
  C4. For a file the script can read and write, the number in the line
  \<^verbatim>\<open>  Made <N> replacements\<close> is the number of matches that the left-to-right scan of
  \<^verbatim>\<open>re.findall\<close> finds in the text read. It is the number of positions of that text at which
  the pattern matches (two matches never overlap), and it is the number of substitutions
  made to produce the text the script stores: that text is the pieces between the matches
  of the text read, with \<open>N\<close> copies of the replacement in between. The line shows \<open>N\<close> in
  decimal digits.
\<close>

theorem reported_count_is_substitution_count:
  assumes "fs w (path_join migrations_dir f) = Some (RegularFile True True (Some raw))"
  shows "re_subn pattern replacement (universal_newlines raw) =
           (re_sub pattern replacement (universal_newlines raw),
            length (re_findall pattern (universal_newlines raw))) \<and>
         length (re_findall pattern (universal_newlines raw)) =
           count_matches (universal_newlines raw) \<and>
         (\<exists>w'. process_file f w = Inr w' \<and>
            last (out w') =
              ''  Made '' @ str_nat (length (re_findall pattern (universal_newlines raw))) @
              '' replacements'' \<and>
            out w' = out w @
              [''Fixing '' @ f @ ''...'',
               ''  Made '' @
                 str_nat (snd (re_subn pattern replacement (universal_newlines raw))) @
                 '' replacements''] \<and>
            fs w' (path_join migrations_dir f) =
              Some (RegularFile True True (Some (translate_newlines (linesep w)
                (fst (re_subn pattern replacement (universal_newlines raw))))))) \<and>
         decimal_value (str_nat (snd (re_subn pattern replacement (universal_newlines raw)))) =
           snd (re_subn pattern replacement (universal_newlines raw)) \<and>
         (\<exists>gaps. length gaps = Suc (snd (re_subn pattern replacement (universal_newlines raw))) \<and>
            universal_newlines raw = weave gaps (re_findall pattern (universal_newlines raw)) \<and>
            fst (re_subn pattern replacement (universal_newlines raw)) =
              weave gaps
                (replicate (snd (re_subn pattern replacement (universal_newlines raw)))
                   replacement))"
  using process_usable [OF assms] weave_scan [of "universal_newlines raw" replacement]
  by (simp add: re_subn_sub findall_count decimal_str_nat rewritten_def)

theorem reported_count_is_substitution_count_witness:
  "fs (world_with policy_sql) (path_join migrations_dir first_file) =
     Some (RegularFile True True (Some policy_sql)) \<and>
   length (re_findall pattern (universal_newlines policy_sql)) = 1 \<and>
   count_matches (universal_newlines policy_sql) = 1 \<and>
   re_subn pattern replacement (universal_newlines policy_sql) =
     (re_sub pattern replacement (universal_newlines policy_sql), 1) \<and>
   snd (re_subn pattern replacement (universal_newlines policy_sql)) = 1 \<and>
   decimal_value ''1'' = 1 \<and>
   (\<exists>w'. process_file first_file (world_with policy_sql) = Inr w' \<and>
      last (out w') = ''  Made 1 replacements'' \<and>
      out w' = [''Fixing '' @ first_file @ ''...'', ''  Made 1 replacements''] \<and>
      fs w' (path_join migrations_dir first_file) =
        Some (RegularFile True True (Some (str_of ''USING (public.is_admin());''))))"
  using reported_count_is_substitution_count [OF world_with_file [of policy_sql]]
  by (simp add: world_with_file policy_sql_plain policy_sql_scan policy_sql_subn str_nat_digit
        translate_lf world_with_rest)



text \<open>
  C6. A file may hold \<^verbatim>\<open>public.is_admin()\<close> before the run. The file below holds it once,
  beside one predicate to replace: the script reports one replacement and the text it
  writes back holds the string twice.
\<close>

theorem replacement_count_counterexample:
  "process_file first_file (world_with half_fixed_sql) =
     Inr ((world_with half_fixed_sql)
       \<lparr>fs := (fs (world_with half_fixed_sql))(path_join migrations_dir first_file \<mapsto>
                 RegularFile True True (Some (replacement @ str_of '' OR '' @ replacement))),
        out := [''Fixing '' @ first_file @ ''...'', ''  Made 1 replacements'']\<rparr>) \<and>
   length (re_findall pattern (universal_newlines half_fixed_sql)) = 1 \<and>
   count_occurrences replacement (replacement @ str_of '' OR '' @ replacement) = 2"
  using process_usable [OF world_with_file [of half_fixed_sql]]
  by (simp add: half_fixed_plain half_fixed_scan half_fixed_counts rewritten_def translate_lf
        world_with_rest str_nat_digit)

text \<open>
  C6, amended. For a file the script can read and write, whose text has \<open>N\<close> matches of the
  pattern, the text written back has \<open>N\<close> occurrences of \<^verbatim>\<open>public.is_admin()\<close> more than the
  text read: \<open>N\<close> plus the occurrences the text already had.
\<close>

theorem replacement_count:
  assumes "fs w (path_join migrations_dir f) = Some (RegularFile True True (Some raw))"
  shows "\<exists>w'. process_file f w = Inr w' \<and>
           fs w' (path_join migrations_dir f) =
             Some (RegularFile True True (Some (translate_newlines (linesep w)
               (re_sub pattern replacement (universal_newlines raw))))) \<and>
           count_occurrences replacement (re_sub pattern replacement (universal_newlines raw)) =
             length (re_findall pattern (universal_newlines raw)) +
             count_occurrences replacement (universal_newlines raw)"
  using process_usable [OF assms] by (simp add: count_replacement_sub rewritten_def)

theorem replacement_count_witness:
  "fs (world_with half_fixed_sql) (path_join migrations_dir first_file) =
     Some (RegularFile True True (Some half_fixed_sql)) \<and>
   (\<exists>w'. process_file first_file (world_with half_fixed_sql) = Inr w' \<and>
      fs w' (path_join migrations_dir first_file) =
        Some (RegularFile True True (Some (replacement @ str_of '' OR '' @ replacement)))) \<and>
   count_occurrences replacement (replacement @ str_of '' OR '' @ replacement) = 2 \<and>
   length (re_findall pattern half_fixed_sql) = 1 \<and>
   count_occurrences replacement half_fixed_sql = 1"
  using replacement_count [OF world_with_file [of half_fixed_sql]]
  by (simp add: world_with_file half_fixed_plain half_fixed_scan half_fixed_counts translate_lf
        world_with_rest)

text \<open>
  C7. The script opens the file in text mode, so what it reads is the content with every
  \<^verbatim>\<open>\r\n\<close> and every lone \<^verbatim>\<open>\r\<close> turned into \<^verbatim>\<open>\n\<close>, and this is what it writes back. A file
  without any match that holds \<^verbatim>\<open>a\r\nb\<close> holds \<^verbatim>\<open>a\nb\<close> after the run (where the line
  separator is \<^verbatim>\<open>\n\<close>): the count is 0, the content is not the original.
\<close>

theorem unmatched_file_counterexample:
  "fs (world_with crlf_sql) (path_join migrations_dir first_file) =
     Some (RegularFile True True (Some (str_of ''a'' @ [13, 10] @ str_of ''b''))) \<and>
   re_findall pattern (universal_newlines crlf_sql) = [] \<and>
   process_file first_file (world_with crlf_sql) =
     Inr ((world_with crlf_sql)
       \<lparr>fs := (fs (world_with crlf_sql))(path_join migrations_dir first_file \<mapsto>
                 RegularFile True True (Some (str_of ''a'' @ [10] @ str_of ''b''))),
        out := [''Fixing '' @ first_file @ ''...'', ''  Made 0 replacements'']\<rparr>)"
  using process_usable [OF world_with_file [of crlf_sql]]
  by (simp add: world_with_file crlf_read crlf_scan rewritten_def translate_lf world_with_rest
        str_nat_digit)
     (simp add: crlf_sql_def str_of_def)

text \<open>
  C7, amended. For a file the script can read and write, whose text has no match of the
  pattern, the text written back is the text read, that is the original content with its
  line ends normalised to \<^verbatim>\<open>\n\<close>, and the reported count is 0. The file is left as it was
  when it holds no carriage return and the line separator of the platform is \<^verbatim>\<open>\n\<close>.
\<close>

theorem unmatched_file_keeps_text:
  assumes "fs w (path_join migrations_dir f) = Some (RegularFile True True (Some raw))"
    and "re_findall pattern (universal_newlines raw) = []"
  shows "\<exists>w'. process_file f w = Inr w' \<and>
           fs w' (path_join migrations_dir f) =
             Some (RegularFile True True
               (Some (translate_newlines (linesep w) (universal_newlines raw)))) \<and>
           last (out w') = ''  Made 0 replacements'' \<and>
           (13 \<notin> set raw \<and> linesep w = [10] \<longrightarrow> fs w' = fs w)"
proof -
  from assms(2) have "rewritten (linesep w) raw = translate_newlines (linesep w) (universal_newlines raw)"
    by (simp add: rewritten_def findall_Nil_sub_id)
  moreover have "(fs w)(path_join migrations_dir f \<mapsto> RegularFile True True (Some raw)) = fs w"
    using assms(1) by (rule map_upd_triv)
  ultimately show ?thesis
    using process_usable [OF assms(1)] assms(2)
    by (auto simp: str_nat_digit universal_id translate_lf)
qed

theorem unmatched_file_keeps_text_witness:
  "fs (world_with where_alone_sql) (path_join migrations_dir first_file) =
     Some (RegularFile True True (Some where_alone_sql)) \<and>
   re_findall pattern (universal_newlines where_alone_sql) = [] \<and>
   13 \<notin> set where_alone_sql \<and> linesep (world_with where_alone_sql) = [10] \<and>
   (\<exists>w'. process_file first_file (world_with where_alone_sql) = Inr w' \<and>
      fs w' (path_join migrations_dir first_file) =
        Some (RegularFile True True (Some where_alone_sql)) \<and>
      last (out w') = ''  Made 0 replacements'' \<and>
      fs w' = fs (world_with where_alone_sql))"
proof -
  have u: "universal_newlines where_alone_sql = where_alone_sql"
    by (rule universal_id) (rule where_alone_plain)
  have z: "re_findall pattern (universal_newlines where_alone_sql) = []"
    by (simp add: u where_alone_scan)
  from unmatched_file_keeps_text [OF world_with_file [of where_alone_sql] z]
  show ?thesis by (simp add: world_with_file u where_alone_scan where_alone_plain translate_lf
        world_with_rest)
qed

text \<open>
  C8. When every file of the list is either missing or readable and writable, the run
  returns and the lines it has printed are exactly those of the console format: per file,
  in list order, \<^verbatim>\<open>Fixing <filename>...\<close> and \<^verbatim>\<open>  Made <N> replacements\<close> if the file exists,
  \<^verbatim>\<open>File not found: <filename>\<close> if it does not, and one final \<^verbatim>\<open>Done!\<close>.
\<close>

theorem console_output:
  assumes "\<forall>g\<in>set files_to_fix. path_exists (fs w) (path_join migrations_dir g) \<longrightarrow>
             usable_file (fs w) (path_join migrations_dir g)"
  shows "\<exists>w'. main w = Inr w' \<and> out w' = out w @ expected_output (fs w) files_to_fix"
  using main_returns [OF assms] by blast

theorem console_output_witness:
  "usable_file (fs (world_with policy_sql)) (path_join migrations_dir first_file) \<and>
   main (world_with policy_sql) = Inr world_after \<and>
   out world_after = out (world_with policy_sql) @
     expected_output (fs (world_with policy_sql)) files_to_fix"
proof -
  have u: "\<forall>g\<in>set files_to_fix.
      path_exists (fs (world_with policy_sql)) (path_join migrations_dir g) \<longrightarrow>
      usable_file (fs (world_with policy_sql)) (path_join migrations_dir g)"
    by (simp add: files_to_fix_def world_with_def path_exists_def usable_file_def
          path_join_def migrations_dir_def first_path_def)
  have f: "usable_file (fs (world_with policy_sql)) (path_join migrations_dir first_file)"
    by (simp add: usable_file_def world_with_file)
  from console_output [OF u] f show ?thesis by (simp add: main_policy_world)
qed

text \<open>
  C9. Let the files before file \<open>f\<close> have been processed, let \<open>f\<close> exist, and let reading
  it raise \<open>e\<close> (it is a directory, may not be read, or does not decode) or, after a
  successful read, let writing it raise \<open>e\<close>. Then processing \<open>f\<close> raises \<open>e\<close>: nothing in the
  loop body catches it, and the loop and the run end with that exception. The file system
  is then as the files before \<open>f\<close> left it, so every path that is not one of theirs, and
  in particular every file of the list behind \<open>f\<close>, is as before the run; the last line
  printed is \<^verbatim>\<open>Fixing <f>...\<close> and the run has printed no \<^verbatim>\<open>Done!\<close>. The loop body raises
  exactly when the file exists and cannot be both read and written.
\<close>

theorem io_error_aborts_batch:
  assumes "for_loop pre w = Inr w1"
    and "path_exists (fs w1) (path_join migrations_dir f)"
    and "read_text (fs w1) (path_join migrations_dir f) = Inl e \<or>
         (\<exists>content. read_text (fs w1) (path_join migrations_dir f) = Inr content \<and>
            write_text (linesep w1) (fs w1) (path_join migrations_dir f)
              (re_sub pattern replacement content) = Inl e)"
  shows "process_file f w1 = Inl (e, print (''Fixing '' @ f @ ''...'') w1) \<and>
         for_loop (pre @ f # post) w = Inl (e, print (''Fixing '' @ f @ ''...'') w1) \<and>
         (files_to_fix = pre @ f # post \<longrightarrow>
            main w = Inl (e, print (''Fixing '' @ f @ ''...'') w1) \<and>
            (\<forall>g\<in>set post. fs (print (''Fixing '' @ f @ ''...'') w1) (path_join migrations_dir g) =
               fs w (path_join migrations_dir g))) \<and>
         fs (print (''Fixing '' @ f @ ''...'') w1) = fs w1 \<and>
         (\<forall>p. p \<notin> set (map (path_join migrations_dir) pre) \<longrightarrow>
            fs (print (''Fixing '' @ f @ ''...'') w1) p = fs w p) \<and>
         out (print (''Fixing '' @ f @ ''...'') w1) = out w1 @ [''Fixing '' @ f @ ''...''] \<and>
         ''Done!'' \<notin> set (drop (length (out w)) (out (print (''Fixing '' @ f @ ''...'') w1))) \<and>
         ((\<exists>e' v'. process_file h v = Inl (e', v')) \<longleftrightarrow>
            path_exists (fs v) (path_join migrations_dir h) \<and>
            \<not> usable_file (fs v) (path_join migrations_dir h))"
proof -
  let ?w2 = "print (''Fixing '' @ f @ ''...'') w1"
  note r = process_io_error [OF assms(2,3)]
  note a = raise_aborts(1) [OF assms(1) r, of post]
  note b = raise_aborts(2-5) [OF assms(1) r]
  have "main w = Inl (e, ?w2) \<and>
        (\<forall>g\<in>set post. fs ?w2 (path_join migrations_dir g) = fs w (path_join migrations_dir g))"
    if split: "files_to_fix = pre @ f # post"
  proof -
    from a split have "main w = Inl (e, ?w2)" by (simp add: main_def)
    moreover have "distinct (map (path_join migrations_dir) (pre @ f # post))"
      using distinct_files unfolding split .
    then have "\<forall>g\<in>set post. path_join migrations_dir g \<notin> set (map (path_join migrations_dir) pre)"
      by auto
    with b(2) have "\<forall>g\<in>set post. fs ?w2 (path_join migrations_dir g) = fs w (path_join migrations_dir g)"
      by blast
    ultimately show ?thesis by blast
  qed
  with r a b raises_iff [of h v] show ?thesis by blast
qed

theorem io_error_aborts_batch_witness:
  "for_loop [first_file] locked_world = Inr locked_after_first \<and>
   path_exists (fs locked_after_first) (path_join migrations_dir second_file) \<and>
   read_text (fs locked_after_first) (path_join migrations_dir second_file) = Inl PermissionError \<and>
   process_file second_file locked_after_first = Inl (PermissionError, locked_at_error) \<and>
   files_to_fix = [first_file] @ second_file # drop 2 files_to_fix \<and>
   main locked_world = Inl (PermissionError, locked_at_error) \<and>
   fs locked_at_error = fs locked_after_first \<and>
   last (out locked_at_error) = ''Fixing '' @ second_file @ ''...'' \<and>
   ''Done!'' \<notin> set (out locked_at_error) \<and>
   read_text (fs (world_of Directory)) (path_join migrations_dir first_file) =
     Inl IsADirectoryError \<and>
   main (world_of Directory) =
     Inl (IsADirectoryError, print (''Fixing '' @ first_file @ ''...'') (world_of Directory)) \<and>
   read_text (fs (world_of (RegularFile True True None))) (path_join migrations_dir first_file) =
     Inl UnicodeDecodeError \<and>
   main (world_of (RegularFile True True None)) =
     Inl (UnicodeDecodeError,
          print (''Fixing '' @ first_file @ ''...'') (world_of (RegularFile True True None))) \<and>
   read_text (fs (world_of (RegularFile True False (Some policy_sql))))
     (path_join migrations_dir first_file) = Inr policy_sql \<and>
   write_text [10] (fs (world_of (RegularFile True False (Some policy_sql))))
     (path_join migrations_dir first_file) (re_sub pattern replacement policy_sql) =
     Inl PermissionError \<and>
   main (world_of (RegularFile True False (Some policy_sql))) =
     Inl (PermissionError,
          print (''Fixing '' @ first_file @ ''...'')
            (world_of (RegularFile True False (Some policy_sql))))"
proof -
  have p: "locked_at_error = print (''Fixing '' @ second_file @ ''...'') locked_after_first"
    by (simp add: locked_at_error_def locked_after_first_def print_def second_file_def)
  have er: "read_text (fs locked_after_first) (path_join migrations_dir second_file) = Inl PermissionError \<or>
         (\<exists>content. read_text (fs locked_after_first) (path_join migrations_dir second_file) = Inr content \<and>
            write_text (linesep locked_after_first) (fs locked_after_first)
              (path_join migrations_dir second_file) (re_sub pattern replacement content) =
              Inl PermissionError)"
    using locked_read(2) by blast
  note t = io_error_aborts_batch [OF locked_first locked_read(1) er, of "drop 2 files_to_fix",
      folded p]
  from t have s: "process_file second_file locked_after_first = Inl (PermissionError, locked_at_error)"
    by blast
  from t files_split have m: "main locked_world = Inl (PermissionError, locked_at_error)"
    by blast
  from t have f: "fs locked_at_error = fs locked_after_first" by blast
  from t have "out locked_at_error = out locked_after_first @ [''Fixing '' @ second_file @ ''...'']"
    by blast
  then have l: "last (out locked_at_error) = ''Fixing '' @ second_file @ ''...''" by simp
  from t have "''Done!'' \<notin> set (drop (length (out locked_world)) (out locked_at_error))"
    by blast
  then have d: "''Done!'' \<notin> set (out locked_at_error)" by (simp add: locked_world_def)
  have st: "\<And>n. for_loop [] (world_of n) = Inr (world_of n)" by simp
  have ex: "\<And>n. path_exists (fs (world_of n)) (path_join migrations_dir first_file)"
    by (simp add: path_exists_def world_of_file)
  have r1: "read_text (fs (world_of Directory)) (path_join migrations_dir first_file) =
     Inl IsADirectoryError" by (simp add: read_text_def world_of_file)
  have r2: "read_text (fs (world_of (RegularFile True True None)))
     (path_join migrations_dir first_file) = Inl UnicodeDecodeError"
    by (simp add: read_text_def world_of_file)
  have r3: "read_text (fs (world_of (RegularFile True False (Some policy_sql))))
     (path_join migrations_dir first_file) = Inr policy_sql"
    by (simp add: read_text_def world_of_file policy_sql_plain)
  have w3: "write_text [10] (fs (world_of (RegularFile True False (Some policy_sql))))
     (path_join migrations_dir first_file) (re_sub pattern replacement policy_sql) =
     Inl PermissionError"
    by (simp add: write_text_def world_of_file)
  from io_error_aborts_batch [OF st ex, of Directory IsADirectoryError "tl files_to_fix"] r1
    files_head
  have m1: "main (world_of Directory) =
     Inl (IsADirectoryError, print (''Fixing '' @ first_file @ ''...'') (world_of Directory))"
    by blast
  from io_error_aborts_batch [OF st ex, of "RegularFile True True None" UnicodeDecodeError
      "tl files_to_fix"] r2 files_head
  have m2: "main (world_of (RegularFile True True None)) =
     Inl (UnicodeDecodeError,
          print (''Fixing '' @ first_file @ ''...'') (world_of (RegularFile True True None)))"
    by blast
  have e3: "read_text (fs (world_of (RegularFile True False (Some policy_sql))))
              (path_join migrations_dir first_file) = Inl PermissionError \<or>
         (\<exists>content. read_text (fs (world_of (RegularFile True False (Some policy_sql))))
              (path_join migrations_dir first_file) = Inr content \<and>
            write_text (linesep (world_of (RegularFile True False (Some policy_sql))))
              (fs (world_of (RegularFile True False (Some policy_sql))))
              (path_join migrations_dir first_file) (re_sub pattern replacement content) =
              Inl PermissionError)"
    using r3 w3 by (simp add: world_of_file)
  from io_error_aborts_batch [OF st ex e3, of "tl files_to_fix"] files_head
  have m3: "main (world_of (RegularFile True False (Some policy_sql))) =
     Inl (PermissionError,
          print (''Fixing '' @ first_file @ ''...'')
            (world_of (RegularFile True False (Some policy_sql))))"
    by blast
  from locked_first locked_read s files_split m f l d r1 m1 r2 m2 r3 w3 m3
  show ?thesis by blast
qed

text \<open>
  C10. Matching is case sensitive. Let \<open>t\<close> be the predicate in another letter case: \<open>t\<close>
  equals an occurrence of the pattern up to the case of its letters, and is not that
  occurrence. Inside any text that has no match of its own, \<open>t\<close> is not matched: the count
  is 0 and the substitution returns the text. For a file with such a text that the
  script can read and write, the script prints \<^verbatim>\<open>  Made 0 replacements\<close> and writes back the
  text it has read; the file is left as it was when it holds no carriage return and the
  line separator of the platform is \<^verbatim>\<open>\n\<close>.
\<close>

theorem matching_is_case_sensitive:
  assumes "list_all is_space a" "list_all is_space b" "list_all is_space c"
    and "map lower t = map lower (occurrence a b c)" and "t \<noteq> occurrence a b c"
    and "re_findall pattern pre = []" and "re_findall pattern post = []"
  shows "length (re_findall pattern (pre @ t @ post)) = 0 \<and>
         re_sub pattern replacement (pre @ t @ post) = pre @ t @ post \<and>
         (fs w (path_join migrations_dir f) = Some (RegularFile True True (Some raw)) \<and>
          universal_newlines raw = pre @ t @ post \<longrightarrow>
            (\<exists>w'. process_file f w = Inr w' \<and>
               out w' = out w @ [''Fixing '' @ f @ ''...'', ''  Made 0 replacements''] \<and>
               fs w' (path_join migrations_dir f) =
                 Some (RegularFile True True
                   (Some (translate_newlines (linesep w) (pre @ t @ post)))) \<and>
               (13 \<notin> set raw \<and> linesep w = [10] \<longrightarrow> fs w' = fs w)))"
proof -
  from pass_through [OF variant_context [OF assms(1-6)], of post replacement]
    pass_through [OF variant_no_match [OF assms(1-5)], of post replacement]
    findall_Nil_sub_id [OF assms(7), of replacement] assms(7)
  have z: "re_findall pattern (pre @ t @ post) = []"
    and s: "re_sub pattern replacement (pre @ t @ post) = pre @ t @ post" by simp_all
  have "\<exists>w'. process_file f w = Inr w' \<and>
               out w' = out w @ [''Fixing '' @ f @ ''...'', ''  Made 0 replacements''] \<and>
               fs w' (path_join migrations_dir f) =
                 Some (RegularFile True True
                   (Some (translate_newlines (linesep w) (pre @ t @ post)))) \<and>
               (13 \<notin> set raw \<and> linesep w = [10] \<longrightarrow> fs w' = fs w)"
    if n: "fs w (path_join migrations_dir f) = Some (RegularFile True True (Some raw))"
      and u: "universal_newlines raw = pre @ t @ post"
  proof -
    from z u have "re_findall pattern (universal_newlines raw) = []" by simp
    note p = process_unmatched [OF n this]
    have "(fs w)(path_join migrations_dir f \<mapsto> RegularFile True True (Some raw)) = fs w"
      using n by (rule map_upd_triv)
    with p u show ?thesis by (auto simp: universal_id translate_lf)
  qed
  with z s show ?thesis by simp
qed

theorem matching_is_case_sensitive_witness:
  "list_all is_space [] \<and> list_all is_space [32] \<and>
   map lower lower_exists_sql = map lower (occurrence [] [32] []) \<and>
   lower_exists_sql \<noteq> occurrence [] [32] [] \<and>
   re_findall pattern (str_of ''USING ('') = [] \<and> re_findall pattern (str_of '');'') = [] \<and>
   length (re_findall pattern (str_of ''USING ('' @ lower_exists_sql @ str_of '');'')) = 0 \<and>
   re_sub pattern replacement (str_of ''USING ('' @ lower_exists_sql @ str_of '');'') =
     str_of ''USING ('' @ lower_exists_sql @ str_of '');'' \<and>
   fs (world_with lower_policy_sql) (path_join migrations_dir first_file) =
     Some (RegularFile True True (Some lower_policy_sql)) \<and>
   universal_newlines lower_policy_sql =
     str_of ''USING ('' @ lower_exists_sql @ str_of '');'' \<and>
   13 \<notin> set lower_policy_sql \<and> linesep (world_with lower_policy_sql) = [10] \<and>
   (\<exists>w'. process_file first_file (world_with lower_policy_sql) = Inr w' \<and>
      out w' = [''Fixing '' @ first_file @ ''...'', ''  Made 0 replacements''] \<and>
      fs w' (path_join migrations_dir first_file) =
        Some (RegularFile True True (Some lower_policy_sql)) \<and>
      fs w' = fs (world_with lower_policy_sql))"
proof -
  have h: "list_all is_space []" "list_all is_space [32]" by (simp_all add: is_space_def)
  note t = matching_is_case_sensitive [OF h(1) h(2) h(1) lower_exists_facts brackets_scan,
      of "world_with lower_policy_sql" first_file lower_policy_sql]
  have u: "universal_newlines lower_policy_sql =
     str_of ''USING ('' @ lower_exists_sql @ str_of '');''"
    unfolding universal_id [OF lower_policy_plain] by (simp add: lower_policy_sql_def)
  from t world_with_file [of lower_policy_sql] u
  have "\<exists>w'. process_file first_file (world_with lower_policy_sql) = Inr w' \<and>
      out w' = out (world_with lower_policy_sql) @
        [''Fixing '' @ first_file @ ''...'', ''  Made 0 replacements''] \<and>
      fs w' (path_join migrations_dir first_file) =
        Some (RegularFile True True (Some (translate_newlines
          (linesep (world_with lower_policy_sql))
          (str_of ''USING ('' @ lower_exists_sql @ str_of '');'')))) \<and>
      (13 \<notin> set lower_policy_sql \<and> linesep (world_with lower_policy_sql) = [10] \<longrightarrow>
         fs w' = fs (world_with lower_policy_sql))" by blast
  then have A: "\<exists>w'. process_file first_file (world_with lower_policy_sql) = Inr w' \<and>
      out w' = [''Fixing '' @ first_file @ ''...'', ''  Made 0 replacements''] \<and>
      fs w' (path_join migrations_dir first_file) =
        Some (RegularFile True True (Some lower_policy_sql)) \<and>
      fs w' = fs (world_with lower_policy_sql)"
    using lower_policy_plain
    by (simp add: world_with_rest translate_lf lower_policy_sql_def [symmetric])
  from t have B: "length (re_findall pattern (str_of ''USING ('' @ lower_exists_sql @ str_of '');'')) = 0"
    and C: "re_sub pattern replacement (str_of ''USING ('' @ lower_exists_sql @ str_of '');'') =
     str_of ''USING ('' @ lower_exists_sql @ str_of '');''" by blast+
  from h lower_exists_facts brackets_scan B C world_with_file [of lower_policy_sql] u
    lower_policy_plain world_with_rest(1) [of lower_policy_sql] A
  show ?thesis by blast
qed

end
